theory Spec2Isabelle
  imports Main "HOL-Library.Sublist"
begin

section \<open>Diff utility (src/utils/diff.ts)\<close>

text \<open>
  A JavaScript string is a sequence of UTF-16 code units. The functions below are polymorphic
  in the code-unit type \<open>'a\<close>; the concrete examples use \<^typ>\<open>string\<close>.

  \<open>String.prototype.toLowerCase\<close> is a built-in of the language, not code of the repository.
  It is taken as a parameter \<open>lower\<close> of type \<open>'a list \<Rightarrow> 'a list\<close>, about which nothing is
  assumed in the definitions (the built-in may lengthen a string: U+0130 becomes two code
  units). Reading a string or an array beyond its end yields \<open>undefined\<close> in JavaScript, and
  reading a property of \<open>undefined\<close> throws a TypeError; both are written out.
\<close>

datatype DiffType = Equal | Insert | Delete

text \<open>The field \<open>text\<close> of the source is \<open>textOf\<close> here (\<open>text\<close> is a command name).\<close>

record 'a DiffSegment =
  type :: DiffType
  textOf :: "'a list"

datatype JsError = TypeError

text \<open>\<open>s[k]\<close> on a string or array: \<open>None\<close> stands for \<open>undefined\<close>.\<close>

definition charAt :: "'a list \<Rightarrow> nat \<Rightarrow> 'a option" where
  "charAt s k = (if k < length s then Some (s ! k) else None)"

subsection \<open>computeLCS\<close>

text \<open>
  The body of the inner loop, for row \<open>i\<close> and column \<open>j\<close>. The loops run over
  \<open>1 \<le> i \<le> m\<close> and \<open>1 \<le> j \<le> n\<close>, so every read and write here is in range.
\<close>

definition lcsCell :: "'a list \<Rightarrow> 'a list \<Rightarrow> nat \<Rightarrow> nat \<Rightarrow> nat list list \<Rightarrow> nat list list" where
  "lcsCell str1 str2 i j dp =
     (if str1 ! (i - 1) = str2 ! (j - 1)
      then dp[i := (dp ! i)[j := dp ! (i - 1) ! (j - 1) + 1]]
      else dp[i := (dp ! i)[j := max (dp ! (i - 1) ! j) (dp ! i ! (j - 1))]])"

definition computeLCS :: "'a list \<Rightarrow> 'a list \<Rightarrow> nat list list" where
  "computeLCS str1 str2 =
     (let m = length str1;
          n = length str2;
          dp = replicate (m + 1) (replicate (n + 1) 0)
      in fold (\<lambda>i dp. fold (\<lambda>j dp. lcsCell str1 str2 i j dp) [1..<n + 1] dp) [1..<m + 1] dp)"

subsection \<open>computeDiff\<close>

text \<open>
  The test \<open>dp[i][j - 1] >= dp[i - 1][j]\<close> of the backtracking loop. It is evaluated only
  with \<open>i > 0\<close> and \<open>j > 0\<close>. A missing row \<open>dp[i]\<close> makes the property read throw; a missing
  entry of an existing row is \<open>undefined\<close>, and \<open>>=\<close> with \<open>undefined\<close> is false.
\<close>

definition leftNotSmaller :: "nat list list \<Rightarrow> nat \<Rightarrow> nat \<Rightarrow> JsError + bool" where
  "leftNotSmaller dp i j =
     (case charAt dp i of
        None \<Rightarrow> Inl TypeError
      | Some row \<Rightarrow>
          (case charAt dp (i - 1) of
             None \<Rightarrow> Inl TypeError
           | Some rowAbove \<Rightarrow>
               (case (charAt row (j - 1), charAt rowAbove j) of
                  (Some l, Some a) \<Rightarrow> Inr (l \<ge> a)
                | _ \<Rightarrow> Inr False)))"

text \<open>
  The backtracking \<open>while\<close> loop, with its state \<open>(i, j, segments)\<close>. \<open>segments.push\<close> appends.
  The loop starts at \<open>i = userAnswer.length\<close>, \<open>j = correctAnswer.length\<close> and only
  decrements, so \<open>correctAnswer[j - 1]\<close> and \<open>userAnswer[i - 1]\<close> are in range; the reads of
  the comparison strings need not be, and go through \<^const>\<open>charAt\<close>
  (\<open>undefined === undefined\<close> is true, as \<open>None = None\<close> is).
\<close>

function backtrack ::
  "'a list \<Rightarrow> 'a list \<Rightarrow> 'a list \<Rightarrow> 'a list \<Rightarrow> nat list list \<Rightarrow>
   nat \<Rightarrow> nat \<Rightarrow> (DiffType \<times> 'a) list \<Rightarrow> JsError + (DiffType \<times> 'a) list" where
  "backtrack userAnswer correctAnswer compareUser compareCorrect dp i j segments =
     (if i > 0 \<or> j > 0 then
        if i > 0 \<and> j > 0 \<and> charAt compareUser (i - 1) = charAt compareCorrect (j - 1) then
          backtrack userAnswer correctAnswer compareUser compareCorrect dp (i - 1) (j - 1)
            (segments @ [(Equal, correctAnswer ! (j - 1))])
        else if j > 0 \<and> i = 0 then
          backtrack userAnswer correctAnswer compareUser compareCorrect dp i (j - 1)
            (segments @ [(Insert, correctAnswer ! (j - 1))])
        else if j > 0 then
          (case leftNotSmaller dp i j of
             Inl e \<Rightarrow> Inl e
           | Inr True \<Rightarrow>
               backtrack userAnswer correctAnswer compareUser compareCorrect dp i (j - 1)
                 (segments @ [(Insert, correctAnswer ! (j - 1))])
           | Inr False \<Rightarrow>
               backtrack userAnswer correctAnswer compareUser compareCorrect dp (i - 1) j
                 (segments @ [(Delete, userAnswer ! (i - 1))]))
        else
          backtrack userAnswer correctAnswer compareUser compareCorrect dp (i - 1) j
            (segments @ [(Delete, userAnswer ! (i - 1))])
      else Inr segments)"
  by pat_completeness auto
termination
  by (relation "measure (\<lambda>(u, c, cu, cc, dp, i, j, segs). i + j)") auto

declare backtrack.simps [simp del]

text \<open>The body of the merging \<open>for\<close> loop over the reversed \<open>segments\<close>.\<close>

definition mergeStep :: "DiffType \<times> 'a \<Rightarrow> 'a DiffSegment list \<Rightarrow> 'a DiffSegment list" where
  "mergeStep seg result =
     (if result \<noteq> [] \<and> type (last result) = fst seg
      then butlast result @ [(last result)\<lparr>textOf := textOf (last result) @ [snd seg]\<rparr>]
      else result @ [\<lparr>type = fst seg, textOf = [snd seg]\<rparr>])"

definition computeDiff ::
  "('a list \<Rightarrow> 'a list) \<Rightarrow> 'a list \<Rightarrow> 'a list \<Rightarrow> bool \<Rightarrow> JsError + 'a DiffSegment list" where
  "computeDiff lower userAnswer correctAnswer caseSensitive =
     (let compareUser = (if caseSensitive then userAnswer else lower userAnswer);
          compareCorrect = (if caseSensitive then correctAnswer else lower correctAnswer)
      in if compareUser = compareCorrect then Inr [\<lparr>type = Equal, textOf = correctAnswer\<rparr>]
         else
           let dp = computeLCS compareUser compareCorrect
           in case backtrack userAnswer correctAnswer compareUser compareCorrect dp
                     (length userAnswer) (length correctAnswer) [] of
                Inl e \<Rightarrow> Inl e
              | Inr segments \<Rightarrow> Inr (fold mergeStep (rev segments) []))"

subsection \<open>Concrete built-ins for 8-bit strings\<close>

text \<open>
  On code units below 128, \<open>toLowerCase\<close> maps \<open>A\<close>..\<open>Z\<close> to \<open>a\<close>..\<open>z\<close> and leaves the rest
  alone. \<^typ>\<open>char\<close> has 256 values; the units from 128 on are left alone here, so
  \<open>asciiLower\<close> is the built-in on ASCII strings only.
\<close>

definition lowerChar :: "char \<Rightarrow> char" where
  "lowerChar ch =
     (case map_of (zip ''ABCDEFGHIJKLMNOPQRSTUVWXYZ'' ''abcdefghijklmnopqrstuvwxyz'') ch of
        Some l \<Rightarrow> l
      | None \<Rightarrow> ch)"

definition asciiLower :: "string \<Rightarrow> string" where
  "asciiLower s = map lowerChar s"

subsection \<open>isAnswerCorrect\<close>

text \<open>
  \<open>String.prototype.trim\<close> removes the white space and line terminator code units from both
  ends of a string. Which code units those are is the parameter \<open>ws\<close>.
\<close>

definition trim :: "('a \<Rightarrow> bool) \<Rightarrow> 'a list \<Rightarrow> 'a list" where
  "trim ws s = rev (dropWhile ws (rev (dropWhile ws s)))"

definition isAnswerCorrect ::
  "('a list \<Rightarrow> 'a list) \<Rightarrow> ('a \<Rightarrow> bool) \<Rightarrow> 'a list \<Rightarrow> 'a list \<Rightarrow> bool \<Rightarrow> bool" where
  "isAnswerCorrect lower ws userAnswer correctAnswer caseSensitive =
     (if caseSensitive then trim ws userAnswer = trim ws correctAnswer
      else lower (trim ws userAnswer) = lower (trim ws correctAnswer))"

text \<open>
  The white space of ECMAScript among the code units below 256: TAB, LF, VT, FF, CR, SP and
  NBSP.
\<close>

definition isWhiteSpace :: "char \<Rightarrow> bool" where
  "isWhiteSpace ch =
     (let k = of_char ch :: nat in (9 \<le> k \<and> k \<le> 13) \<or> k = 32 \<or> k = 160)"

subsection \<open>Projections of a diff\<close>

text \<open>
  The text of the segments that are not \<open>Delete\<close> (what is shown of the correct answer), the
  text of the segments that are not \<open>Insert\<close> (what is shown of the user's answer), and the
  number of characters in \<open>Insert\<close> and \<open>Delete\<close> segments.
\<close>

definition correctText :: "'a DiffSegment list \<Rightarrow> 'a list" where
  "correctText segs = concat (map textOf (filter (\<lambda>s. type s \<noteq> Delete) segs))"

definition userText :: "'a DiffSegment list \<Rightarrow> 'a list" where
  "userText segs = concat (map textOf (filter (\<lambda>s. type s \<noteq> Insert) segs))"

definition editCount :: "'a DiffSegment list \<Rightarrow> nat" where
  "editCount segs = length (concat (map textOf (filter (\<lambda>s. type s \<noteq> Equal) segs)))"

section \<open>Reference definitions for the alignment\<close>

text \<open>
  The entry \<open>(i, j)\<close> of the table of the classic dynamic program for the longest common
  subsequence of \<open>a\<close> and \<open>b\<close>: the recurrence on the first \<open>i\<close> characters of \<open>a\<close> and the
  first \<open>j\<close> characters of \<open>b\<close>.
\<close>

fun lcsTable :: "'a list \<Rightarrow> 'a list \<Rightarrow> nat \<Rightarrow> nat \<Rightarrow> nat" where
  "lcsTable a b 0 j = 0"
| "lcsTable a b (Suc i) 0 = 0"
| "lcsTable a b (Suc i) (Suc j) =
     (if a ! i = b ! j then Suc (lcsTable a b i j)
      else max (lcsTable a b i (Suc j)) (lcsTable a b (Suc i) j))"

text \<open>
  The backtracking as the specification words it, from \<open>(i, j)\<close> back to \<open>(0, 0)\<close>, giving the
  alignment front to back: on a matching pair an \<open>Equal\<close> and a diagonal move; otherwise an
  \<open>Insert\<close> when the table value to the left is not smaller than the value above, else a
  \<open>Delete\<close>. Matching is decided on the comparison strings, the emitted characters come from
  the original strings.
\<close>

fun referenceAlignment ::
  "'a list \<Rightarrow> 'a list \<Rightarrow> 'a list \<Rightarrow> 'a list \<Rightarrow> nat \<Rightarrow> nat \<Rightarrow> (DiffType \<times> 'a) list" where
  "referenceAlignment u c cu cc 0 0 = []"
| "referenceAlignment u c cu cc 0 (Suc j) =
     referenceAlignment u c cu cc 0 j @ [(Insert, c ! j)]"
| "referenceAlignment u c cu cc (Suc i) 0 =
     referenceAlignment u c cu cc i 0 @ [(Delete, u ! i)]"
| "referenceAlignment u c cu cc (Suc i) (Suc j) =
     (if cu ! i = cc ! j then referenceAlignment u c cu cc i j @ [(Equal, c ! j)]
      else if lcsTable cu cc (Suc i) j \<ge> lcsTable cu cc i (Suc j)
           then referenceAlignment u c cu cc (Suc i) j @ [(Insert, c ! j)]
           else referenceAlignment u c cu cc i (Suc j) @ [(Delete, u ! i)])"

text \<open>Run-length merging of adjacent entries of the same kind.\<close>

fun mergeRuns :: "(DiffType \<times> 'a) list \<Rightarrow> 'a DiffSegment list" where
  "mergeRuns [] = []"
| "mergeRuns (x # xs) =
     (case mergeRuns xs of
        [] \<Rightarrow> [\<lparr>type = fst x, textOf = [snd x]\<rparr>]
      | s # ss \<Rightarrow>
          if type s = fst x then s\<lparr>textOf := snd x # textOf s\<rparr> # ss
          else \<lparr>type = fst x, textOf = [snd x]\<rparr> # s # ss)"

definition referenceDiff ::
  "('a list \<Rightarrow> 'a list) \<Rightarrow> 'a list \<Rightarrow> 'a list \<Rightarrow> bool \<Rightarrow> 'a DiffSegment list" where
  "referenceDiff lower userAnswer correctAnswer caseSensitive =
     (let compareUser = (if caseSensitive then userAnswer else lower userAnswer);
          compareCorrect = (if caseSensitive then correctAnswer else lower correctAnswer)
      in if compareUser = compareCorrect then [\<lparr>type = Equal, textOf = correctAnswer\<rparr>]
         else mergeRuns
                (referenceAlignment userAnswer correctAnswer compareUser compareCorrect
                   (length userAnswer) (length correctAnswer)))"

text \<open>
  The invariant of the two loops of \<open>computeLCS\<close>: the table has its full size, and every
  entry of a row before \<open>i\<close>, of row \<open>i\<close> before column \<open>k\<close>, and of column \<open>0\<close> holds the
  value of \<^const>\<open>lcsTable\<close>.
\<close>

definition tableFilled :: "'a list \<Rightarrow> 'a list \<Rightarrow> nat list list \<Rightarrow> nat \<Rightarrow> nat \<Rightarrow> bool" where
  "tableFilled a b dp i k \<longleftrightarrow>
     length dp = length a + 1 \<and>
     (\<forall>r \<le> length a. length (dp ! r) = length b + 1) \<and>
     (\<forall>r c. r \<le> length a \<and> c \<le> length b \<and> (r < i \<or> (r = i \<and> c < k) \<or> c = 0) \<longrightarrow>
            dp ! r ! c = lcsTable a b r c)"

section \<open>Card view controller (src/gui/card-ui.tsx)\<close>

text \<open>
  The class \<open>CardUI\<close> as a record of the fields its handlers read and write, and each handler
  as a function from the state before to the state after. What is left out is display only:
  the deck counters of the info bar, the rendered card content, the button labels (and with
  them the sequencer's \<open>determineCardSchedule\<close>, which only feeds the labels) and the CSS
  classes other than \<open>sr-is-hidden\<close> and \<open>is-cram\<close>. The asynchronous handlers are run to
  completion, one event at a time.

  A private method \<open>_name\<close> of the source is \<open>ui_name\<close> here.
\<close>

datatype FlashcardMode = Front | Back | Closed

datatype ReviewResponse = Easy | Good | Hard | Reset

datatype FlashcardReviewMode = Cram | Review

text \<open>
  The enumeration \<open>CardType\<close> is declared outside these sources. The members this file names
  are listed; all others are \<open>OtherCardType\<close>.
\<close>

datatype CardType = Cloze | SingleLineTypeIn | MultiLineTypeIn | OtherCardType

text \<open>The field \<open>back\<close> of a card is \<open>backOf\<close> here (\<open>back\<close> is a command name).\<close>

record 'a Card =
  front :: "'a list"
  backOf :: "'a list"

record Question =
  questionType :: CardType

text \<open>
  The review sequencer is an object behind the interface \<open>IFlashcardReviewSequencer\<close>, whose
  implementation is outside these sources. Its state is a value of an arbitrary type \<open>'q\<close>,
  and its members used by the handlers are the fields of this record: the getters read the
  state (\<open>None\<close> is \<open>null\<close>), the two methods change it. A note and a deck are taken to exist
  whenever a card does.
\<close>

record ('a, 'q) IFlashcardReviewSequencer =
  currentCard :: "'q \<Rightarrow> 'a Card option"
  currentQuestion :: "'q \<Rightarrow> Question option"
  processReview :: "ReviewResponse \<Rightarrow> 'q \<Rightarrow> 'q"
  skipCurrentCard :: "'q \<Rightarrow> 'q"

datatype SequencerCall = ProcessReview ReviewResponse | SkipCurrentCard

text \<open>What \<open>typeInResult\<close> shows after a check: the user's answer as a diff, or the
  "no input" note (\<open>None\<close>) when nothing was typed; the correct answer; the indicator.\<close>

record 'a TypeInResult =
  shownUserAnswer :: "'a DiffSegment list option"
  shownCorrectAnswer :: "'a list"
  indicatorCorrect :: bool

text \<open>
  \<open>lastPressed\<close> is \<open>undefined\<close> (\<open>None\<close>) until the first accepted action. \<open>sequencerCalls\<close>
  and \<open>backToDeckCalls\<close> are not fields of the class: they record the calls made to the
  sequencer's two methods and to the \<open>backToDeck\<close> callback, so that theorems can speak of
  them. \<open>reviewButtonDelay\<close> is \<open>plugin.data.settings.reviewButtonDelay\<close>,
  \<open>typeInCaseSensitive\<close> is \<open>settings.typeInCaseSensitive\<close>. Times are in milliseconds.
\<close>

record ('a, 'q) CardUI =
  mode :: FlashcardMode
  lastPressed :: "int option"
  userTypedAnswer :: "'a list"
  reviewSequencer :: 'q
  reviewMode :: FlashcardReviewMode
  reviewButtonDelay :: int
  typeInCaseSensitive :: bool
  resetButtonDisabled :: bool
  answerButtonHidden :: bool
  hardButtonHidden :: bool
  goodButtonHidden :: bool
  easyButtonHidden :: bool
  responseIsCram :: bool
  typeInContainerHidden :: bool
  typeInInputValue :: "'a list"
  typeInInputDisabled :: bool
  checkAnswerButtonHidden :: bool
  typeInResultHidden :: bool
  typeInResult :: "'a TypeInResult option"
  sequencerCalls :: "SequencerCall list"
  backToDeckCalls :: nat

text \<open>A handler returns, or throws with the state as the assignments before the throw left
  it.\<close>

datatype 's Completion = Returned 's | Threw JsError 's

fun stateOf :: "'s Completion \<Rightarrow> 's" where
  "stateOf (Returned s) = s"
| "stateOf (Threw e s) = s"

text \<open>
  The guard \<open>this.lastPressed && timeNow - this.lastPressed < reviewButtonDelay\<close>, which
  opens \<open>_processReview\<close>, \<open>_checkTypeInAnswer\<close> and \<open>_showAnswer\<close>. \<open>undefined\<close> and \<open>0\<close> are
  falsy.
\<close>

definition pressedTooSoon :: "int option \<Rightarrow> int \<Rightarrow> int \<Rightarrow> bool" where
  "pressedTooSoon pressed timeNow delay =
     (case pressed of
        None \<Rightarrow> False
      | Some lp \<Rightarrow> lp \<noteq> 0 \<and> timeNow - lp < delay)"

definition ui_isTypeInCard ::
  "('a, 'q) IFlashcardReviewSequencer \<Rightarrow> ('a, 'q) CardUI \<Rightarrow> bool" where
  "ui_isTypeInCard sq s =
     (case currentQuestion sq (reviewSequencer s) of
        None \<Rightarrow> False
      | Some q \<Rightarrow> questionType q = SingleLineTypeIn \<or> questionType q = MultiLineTypeIn)"

definition ui_resetResponseButtons ::
  "('a, 'q) IFlashcardReviewSequencer \<Rightarrow> ('a, 'q) CardUI \<Rightarrow> ('a, 'q) CardUI" where
  "ui_resetResponseButtons sq s =
     (let s1 = s\<lparr>hardButtonHidden := True, goodButtonHidden := True, easyButtonHidden := True\<rparr>
      in if ui_isTypeInCard sq s1
         then s1\<lparr>answerButtonHidden := True,
                 typeInContainerHidden := False,
                 typeInInputValue := [],
                 typeInInputDisabled := False,
                 userTypedAnswer := [],
                 checkAnswerButtonHidden := False,
                 typeInResultHidden := True,
                 typeInResult := None\<rparr>
         else s1\<lparr>answerButtonHidden := False, typeInContainerHidden := True\<rparr>)"

text \<open>
  \<open>_drawContent\<close> (which \<open>refresh\<close> calls): it renders \<open>this._currentCard.front\<close> with
  \<open>this._currentQuestion.questionText.textDirection\<close>, which throws when either is \<open>null\<close>.
\<close>

definition ui_drawContent ::
  "('a, 'q) IFlashcardReviewSequencer \<Rightarrow> ('a, 'q) CardUI \<Rightarrow> ('a, 'q) CardUI Completion" where
  "ui_drawContent sq s =
     (let s1 = s\<lparr>resetButtonDisabled := True, mode := Front\<rparr>
      in case (currentCard sq (reviewSequencer s1), currentQuestion sq (reviewSequencer s1)) of
           (Some cur, Some q) \<Rightarrow> Returned (ui_resetResponseButtons sq s1)
         | _ \<Rightarrow> Threw TypeError s1)"

definition ui_showNextCard ::
  "('a, 'q) IFlashcardReviewSequencer \<Rightarrow> ('a, 'q) CardUI \<Rightarrow> ('a, 'q) CardUI Completion" where
  "ui_showNextCard sq s =
     (if currentCard sq (reviewSequencer s) \<noteq> None then ui_drawContent sq s
      else Returned (s\<lparr>backToDeckCalls := backToDeckCalls s + 1\<rparr>))"

definition ui_processReview ::
  "('a, 'q) IFlashcardReviewSequencer \<Rightarrow> int \<Rightarrow> ReviewResponse \<Rightarrow> ('a, 'q) CardUI \<Rightarrow>
   ('a, 'q) CardUI Completion" where
  "ui_processReview sq timeNow response s =
     (if pressedTooSoon (lastPressed s) timeNow (reviewButtonDelay s) then Returned s
      else
        let s1 = s\<lparr>lastPressed := Some timeNow\<rparr>;
            s2 = s1\<lparr>reviewSequencer := processReview sq response (reviewSequencer s1),
                    sequencerCalls := sequencerCalls s1 @ [ProcessReview response]\<rparr>
        in ui_showNextCard sq s2)"

definition ui_skipCurrentCard ::
  "('a, 'q) IFlashcardReviewSequencer \<Rightarrow> ('a, 'q) CardUI \<Rightarrow> ('a, 'q) CardUI Completion" where
  "ui_skipCurrentCard sq s =
     ui_showNextCard sq
       (s\<lparr>reviewSequencer := skipCurrentCard sq (reviewSequencer s),
          sequencerCalls := sequencerCalls s @ [SkipCurrentCard]\<rparr>)"

text \<open>
  The statements under "Show response buttons", which close both \<open>_checkTypeInAnswer\<close> and
  \<open>_showAnswer\<close>.
\<close>

definition showResponseButtons :: "('a, 'q) CardUI \<Rightarrow> ('a, 'q) CardUI" where
  "showResponseButtons s =
     (let s1 = s\<lparr>hardButtonHidden := False, easyButtonHidden := False\<rparr>
      in if reviewMode s1 = Cram then s1\<lparr>responseIsCram := True\<rparr>
         else s1\<lparr>goodButtonHidden := False\<rparr>)"

definition ui_checkTypeInAnswer ::
  "('a list \<Rightarrow> 'a list) \<Rightarrow> ('a \<Rightarrow> bool) \<Rightarrow> ('a, 'q) IFlashcardReviewSequencer \<Rightarrow> int \<Rightarrow>
   ('a, 'q) CardUI \<Rightarrow> ('a, 'q) CardUI Completion" where
  "ui_checkTypeInAnswer lower ws sq timeNow s =
     (if pressedTooSoon (lastPressed s) timeNow (reviewButtonDelay s) then Returned s
      else
        let s1 = s\<lparr>lastPressed := Some timeNow\<rparr>;
            s2 = s1\<lparr>userTypedAnswer := typeInInputValue s1\<rparr>
        in case currentCard sq (reviewSequencer s2) of
             None \<Rightarrow> Threw TypeError s2
           | Some cur \<Rightarrow>
               (let correctAnswer = trim ws (backOf cur);
                    caseSensitive = typeInCaseSensitive s2
                in (case computeDiff lower (userTypedAnswer s2) correctAnswer caseSensitive of
                      Inl e \<Rightarrow> Threw e s2
                    | Inr diff \<Rightarrow>
                        (let isCorrect =
                               isAnswerCorrect lower ws (userTypedAnswer s2) correctAnswer
                                 caseSensitive;
                             s3 = s2\<lparr>typeInResultHidden := False,
                                     typeInResult :=
                                       (Some \<lparr>shownUserAnswer =
                                                (if length (userTypedAnswer s2) = 0 then None
                                                 else Some diff),
                                              shownCorrectAnswer = correctAnswer,
                                              indicatorCorrect = isCorrect\<rparr>),
                                     typeInInputDisabled := True,
                                     checkAnswerButtonHidden := True,
                                     mode := Back,
                                     resetButtonDisabled := False\<rparr>
                         in Returned (showResponseButtons s3)))))"

definition ui_showAnswer ::
  "('a, 'q) IFlashcardReviewSequencer \<Rightarrow> int \<Rightarrow> ('a, 'q) CardUI \<Rightarrow>
   ('a, 'q) CardUI Completion" where
  "ui_showAnswer sq timeNow s =
     (if pressedTooSoon (lastPressed s) timeNow (reviewButtonDelay s) then Returned s
      else
        let s1 = s\<lparr>lastPressed := Some timeNow, mode := Back, resetButtonDisabled := False\<rparr>
        in case (currentQuestion sq (reviewSequencer s1), currentCard sq (reviewSequencer s1)) of
             (Some q, Some cur) \<Rightarrow>
               Returned (showResponseButtons (s1\<lparr>answerButtonHidden := True\<rparr>))
           | _ \<Rightarrow> Threw TypeError s1)"

text \<open>
  What the key handler reads from the document: whether the focused element is a
  \<open>TEXTAREA\<close>, the type-in \<open>INPUT\<close> or something else.
\<close>

datatype ActiveElement = TextArea | TypeInInput | OtherElement

text \<open>
  \<open>_keydownHandler\<close>, with \<open>code\<close> for \<open>e.code\<close> and \<open>srInFocus\<close> for
  \<open>plugin.getSRInFocusState()\<close>. \<open>consumeKeyEvent\<close> acts on the event only and is left out.
\<close>

definition ui_keydownHandler ::
  "('a, 'q) IFlashcardReviewSequencer \<Rightarrow> int \<Rightarrow> ActiveElement \<Rightarrow> bool \<Rightarrow> string \<Rightarrow>
   ('a, 'q) CardUI \<Rightarrow> ('a, 'q) CardUI Completion" where
  "ui_keydownHandler sq timeNow activeElement srInFocus code s =
     (if activeElement = TextArea \<or> mode s = Closed \<or> \<not> srInFocus then Returned s
      else
        let isTypingInInput = (activeElement = TypeInInput)
        in if code = ''KeyS'' then
             (if \<not> isTypingInInput then ui_skipCurrentCard sq s else Returned s)
           else if code = ''Space'' then
             (if isTypingInInput then Returned s
              else if mode s = Front then
                (if \<not> ui_isTypeInCard sq s then ui_showAnswer sq timeNow s else Returned s)
              else if mode s = Back then ui_processReview sq timeNow Good s
              else Returned s)
           else if code = ''Enter'' \<or> code = ''NumpadEnter'' then
             (if mode s \<noteq> Front then Returned s
              else if \<not> ui_isTypeInCard sq s then ui_showAnswer sq timeNow s
              else Returned s)
           else if code = ''Numpad1'' \<or> code = ''Digit1'' then
             (if mode s \<noteq> Back then Returned s else ui_processReview sq timeNow Hard s)
           else if code = ''Numpad2'' \<or> code = ''Digit2'' then
             (if mode s \<noteq> Back then Returned s else ui_processReview sq timeNow Good s)
           else if code = ''Numpad3'' \<or> code = ''Digit3'' then
             (if mode s \<noteq> Back then Returned s else ui_processReview sq timeNow Easy s)
           else if code = ''Numpad0'' \<or> code = ''Digit0'' then
             (if mode s \<noteq> Back then Returned s else ui_processReview sq timeNow Reset s)
           else Returned s)"

text \<open>
  The click listeners of the buttons. A button whose \<open>disabled\<close> attribute is set dispatches
  no click event; only the reset button is ever disabled.
\<close>

datatype Button =
  ResetButton | SkipButton | AnswerButton | CheckAnswerButton
  | HardButton | GoodButton | EasyButton

definition ui_click ::
  "('a list \<Rightarrow> 'a list) \<Rightarrow> ('a \<Rightarrow> bool) \<Rightarrow> ('a, 'q) IFlashcardReviewSequencer \<Rightarrow> int \<Rightarrow>
   Button \<Rightarrow> ('a, 'q) CardUI \<Rightarrow> ('a, 'q) CardUI Completion" where
  "ui_click lower ws sq timeNow button s =
     (case button of
        ResetButton \<Rightarrow>
          if resetButtonDisabled s then Returned s else ui_processReview sq timeNow Reset s
      | SkipButton \<Rightarrow> ui_skipCurrentCard sq s
      | AnswerButton \<Rightarrow> ui_showAnswer sq timeNow s
      | CheckAnswerButton \<Rightarrow> ui_checkTypeInAnswer lower ws sq timeNow s
      | HardButton \<Rightarrow> ui_processReview sq timeNow Hard s
      | GoodButton \<Rightarrow> ui_processReview sq timeNow Good s
      | EasyButton \<Rightarrow> ui_processReview sq timeNow Easy s)"

subsection \<open>A sequencer and a view for the examples\<close>

text \<open>
  A sequencer whose state is the queue of the cards still to review, each with its question
  type; both methods drop the head of the queue. It stands for the absent implementation in
  the examples only.
\<close>

definition queueSequencer ::
  "('a, ('a Card \<times> CardType) list) IFlashcardReviewSequencer" where
  "queueSequencer =
     \<lparr>currentCard = (\<lambda>q. case q of [] \<Rightarrow> None | x # _ \<Rightarrow> Some (fst x)),
      currentQuestion =
        (\<lambda>q. case q of [] \<Rightarrow> None | x # _ \<Rightarrow> Some \<lparr>questionType = snd x\<rparr>),
      processReview = (\<lambda>response q. tl q),
      skipCurrentCard = (\<lambda>q. tl q)\<rparr>"

definition exampleQueue :: "(char Card \<times> CardType) list" where
  "exampleQueue =
     [(\<lparr>front = ''animal'', backOf = '' cat ''\<rparr>, SingleLineTypeIn),
      (\<lparr>front = ''capital'', backOf = ''Paris''\<rparr>, OtherCardType)]"

text \<open>The view as \<open>_drawContent\<close> leaves it on the first card of \<open>exampleQueue\<close>, with a
  delay of 100 ms, and the same view once \<open>''Cat''\<close> was typed and checked at time 1000.\<close>

definition frontView :: "(char, (char Card \<times> CardType) list) CardUI" where
  "frontView =
     \<lparr>mode = Front, lastPressed = None, userTypedAnswer = [],
      reviewSequencer = exampleQueue, reviewMode = Review, reviewButtonDelay = 100,
      typeInCaseSensitive = False, resetButtonDisabled = True, answerButtonHidden = True,
      hardButtonHidden = True, goodButtonHidden = True, easyButtonHidden = True,
      responseIsCram = False, typeInContainerHidden = False, typeInInputValue = ''Cat'',
      typeInInputDisabled = False, checkAnswerButtonHidden = False,
      typeInResultHidden = True, typeInResult = None, sequencerCalls = [],
      backToDeckCalls = 0\<rparr>"

definition backView :: "(char, (char Card \<times> CardType) list) CardUI" where
  "backView =
     frontView
       \<lparr>mode := Back, lastPressed := Some 1000, userTypedAnswer := ''Cat'',
        resetButtonDisabled := False, hardButtonHidden := False, goodButtonHidden := False,
        easyButtonHidden := False, typeInInputDisabled := True,
        checkAnswerButtonHidden := True, typeInResultHidden := False,
        typeInResult :=
          (Some \<lparr>shownUserAnswer = Some [\<lparr>type = Equal, textOf = ''cat''\<rparr>],
                 shownCorrectAnswer = ''cat'', indicatorCorrect = True\<rparr>)\<rparr>"

subsection \<open>The debounced actions\<close>

text \<open>
  The three actions that pass through the guard on \<open>lastPressed\<close>, each with the handler that
  carries it out, and what it means for an action to have been applied at \<open>timeNow\<close>: the
  time stamp is the action's time and the first effect of the handler is there (the mode is
  \<open>Back\<close> and the reset button enabled; the input was read; the sequencer received the
  response).
\<close>

datatype Action = RevealAnswer | CheckTypedAnswer | GradedResponse ReviewResponse

definition perform ::
  "('a list \<Rightarrow> 'a list) \<Rightarrow> ('a \<Rightarrow> bool) \<Rightarrow> ('a, 'q) IFlashcardReviewSequencer \<Rightarrow> int \<Rightarrow>
   Action \<Rightarrow> ('a, 'q) CardUI \<Rightarrow> ('a, 'q) CardUI Completion" where
  "perform lower ws sq timeNow action s =
     (case action of
        RevealAnswer \<Rightarrow> ui_showAnswer sq timeNow s
      | CheckTypedAnswer \<Rightarrow> ui_checkTypeInAnswer lower ws sq timeNow s
      | GradedResponse response \<Rightarrow> ui_processReview sq timeNow response s)"

definition applied ::
  "('a, 'q) IFlashcardReviewSequencer \<Rightarrow> int \<Rightarrow> Action \<Rightarrow> ('a, 'q) CardUI \<Rightarrow>
   ('a, 'q) CardUI \<Rightarrow> bool" where
  "applied sq timeNow action s s' =
     (lastPressed s' = Some timeNow \<and>
      (case action of
         RevealAnswer \<Rightarrow> mode s' = Back \<and> \<not> resetButtonDisabled s'
       | CheckTypedAnswer \<Rightarrow> userTypedAnswer s' = typeInInputValue s
       | GradedResponse response \<Rightarrow>
           sequencerCalls s' = sequencerCalls s @ [ProcessReview response] \<and>
           reviewSequencer s' = processReview sq response (reviewSequencer s)))"

section \<open>Properties of the diff\<close>

subsection \<open>The backtracking loop, one iteration at a time\<close>

lemma backtrack_done: "backtrack u c cu cc dp 0 0 acc = Inr acc"
  by (subst backtrack.simps) simp

lemma backtrack_equal:
  "0 < i \<Longrightarrow> 0 < j \<Longrightarrow> charAt cu (i - 1) = charAt cc (j - 1) \<Longrightarrow>
   backtrack u c cu cc dp i j acc =
     backtrack u c cu cc dp (i - 1) (j - 1) (acc @ [(Equal, c ! (j - 1))])"
  by (subst backtrack.simps) simp

lemma backtrack_insert0:
  "0 < j \<Longrightarrow>
   backtrack u c cu cc dp 0 j acc = backtrack u c cu cc dp 0 (j - 1) (acc @ [(Insert, c ! (j - 1))])"
  by (subst backtrack.simps) simp

lemma backtrack_delete0:
  "0 < i \<Longrightarrow>
   backtrack u c cu cc dp i 0 acc = backtrack u c cu cc dp (i - 1) 0 (acc @ [(Delete, u ! (i - 1))])"
  by (subst backtrack.simps) simp

lemma backtrack_tie:
  "0 < i \<Longrightarrow> 0 < j \<Longrightarrow> charAt cu (i - 1) \<noteq> charAt cc (j - 1) \<Longrightarrow>
   backtrack u c cu cc dp i j acc =
     (case leftNotSmaller dp i j of
        Inl e \<Rightarrow> Inl e
      | Inr b \<Rightarrow>
          if b then backtrack u c cu cc dp i (j - 1) (acc @ [(Insert, c ! (j - 1))])
          else backtrack u c cu cc dp (i - 1) j (acc @ [(Delete, u ! (i - 1))]))"
  by (subst backtrack.simps) (simp split: sum.splits bool.splits)

lemma leftNotSmaller_returns:
  "i < length dp \<Longrightarrow> \<exists>b. leftNotSmaller dp i j = Inr b"
  by (auto simp: leftNotSmaller_def charAt_def split: option.splits)

lemma backtrack_cases:
  obtains (stop) "i = 0" "j = 0"
  | (match) "0 < i" "0 < j" "charAt cu (i - 1) = charAt cc (j - 1)"
  | (ins0) "i = 0" "0 < j"
  | (del0) "0 < i" "j = 0"
  | (tie) "0 < i" "0 < j" "charAt cu (i - 1) \<noteq> charAt cc (j - 1)"
  by (cases "i = 0"; cases "j = 0"; cases "charAt cu (i - 1) = charAt cc (j - 1)"; simp)


lemma backtrack_returns:
  "i < length dp \<Longrightarrow> \<exists>out. backtrack u c cu cc dp i j acc = Inr out"
proof (induction "i + j" arbitrary: i j acc rule: less_induct)
  case less
  show ?case
  proof (cases rule: backtrack_cases [where i=i and j=j and cu=cu and cc=cc])
    case stop
    then show ?thesis by (simp add: backtrack_done)
  next
    case match
    then show ?thesis using less.hyps [of "i - 1" "j - 1"] less.prems
      by (simp add: backtrack_equal)
  next
    case ins0
    then show ?thesis using less.hyps [of 0 "j - 1"] less.prems
      by (simp add: backtrack_insert0)
  next
    case del0
    then show ?thesis using less.hyps [of "i - 1" 0] less.prems
      by (simp add: backtrack_delete0)
  next
    case tie
    obtain b where b: "leftNotSmaller dp i j = Inr b"
      using leftNotSmaller_returns [OF less.prems] by blast
    show ?thesis
      using tie b less.hyps [of i "j - 1"] less.hyps [of "i - 1" j] less.prems
      by (simp add: backtrack_tie)
  qed
qed

lemma backtrack_correct_chars:
  "backtrack u c cu cc dp i j acc = Inr out \<Longrightarrow> j \<le> length c \<Longrightarrow>
   map snd (filter (\<lambda>p. fst p \<noteq> Delete) (rev out)) =
     take j c @ map snd (filter (\<lambda>p. fst p \<noteq> Delete) (rev acc))"
proof (induction "i + j" arbitrary: i j acc rule: less_induct)
  case less
  have step: "take (j - 1) c @ [c ! (j - 1)] = take j c" if "0 < j"
    using that less.prems(2) by (cases j) (simp_all add: take_Suc_conv_app_nth)
  show ?case
  proof (cases rule: backtrack_cases [where i=i and j=j and cu=cu and cc=cc])
    case stop
    then show ?thesis using less.prems by (simp add: backtrack_done)
  next
    case match
    then show ?thesis
      using less.hyps [of "i - 1" "j - 1" "acc @ [(Equal, c ! (j - 1))]"] less.prems step
      by (simp add: backtrack_equal flip: append_assoc)
  next
    case ins0
    then show ?thesis
      using less.hyps [of 0 "j - 1" "acc @ [(Insert, c ! (j - 1))]"] less.prems step
      by (simp add: backtrack_insert0 flip: append_assoc)
  next
    case del0
    then show ?thesis
      using less.hyps [of "i - 1" 0 "acc @ [(Delete, u ! (i - 1))]"] less.prems
      by (simp add: backtrack_delete0)
  next
    case tie
    show ?thesis
    proof (cases "leftNotSmaller dp i j")
      case (Inl e)
      then show ?thesis using tie less.prems by (simp add: backtrack_tie)
    next
      case (Inr b)
      then show ?thesis
        using tie less.prems step
          less.hyps [of i "j - 1" "acc @ [(Insert, c ! (j - 1))]"]
          less.hyps [of "i - 1" j "acc @ [(Delete, u ! (i - 1))]"]
        by (cases b) (simp_all add: backtrack_tie flip: append_assoc)
    qed
  qed
qed

lemma backtrack_user_chars:
  "backtrack u c (map f u) (map f c) dp i j acc = Inr out \<Longrightarrow>
   i \<le> length u \<Longrightarrow> j \<le> length c \<Longrightarrow>
   map f (map snd (filter (\<lambda>p. fst p \<noteq> Insert) (rev out))) =
     map f (take i u) @ map f (map snd (filter (\<lambda>p. fst p \<noteq> Insert) (rev acc)))"
proof (induction "i + j" arbitrary: i j acc rule: less_induct)
  case less
  have step: "take (i - 1) u @ [u ! (i - 1)] = take i u" if "0 < i"
    using that less.prems(2) by (cases i) (simp_all add: take_Suc_conv_app_nth)
  have stepf: "map f (take (i - 1) u) @ [f (u ! (i - 1))] = map f (take i u)" if "0 < i"
    using step [OF that] by (metis list.simps(8,9) map_append)
  show ?case
  proof (cases rule: backtrack_cases [where i=i and j=j and cu="map f u" and cc="map f c"])
    case stop
    then show ?thesis using less.prems by (simp add: backtrack_done)
  next
    case match
    have "i - 1 < length u" "j - 1 < length c"
      using match less.prems by simp_all
    then have "f (c ! (j - 1)) = f (u ! (i - 1))"
      using match(3) by (simp add: charAt_def)
    then show ?thesis
      using match less.hyps [of "i - 1" "j - 1" "acc @ [(Equal, c ! (j - 1))]"] less.prems stepf
      by (simp add: backtrack_equal flip: append_assoc)
  next
    case ins0
    then show ?thesis
      using less.hyps [of 0 "j - 1" "acc @ [(Insert, c ! (j - 1))]"] less.prems
      by (simp add: backtrack_insert0)
  next
    case del0
    then show ?thesis
      using less.hyps [of "i - 1" 0 "acc @ [(Delete, u ! (i - 1))]"] less.prems stepf
      by (simp add: backtrack_delete0 flip: append_assoc)
  next
    case tie
    show ?thesis
    proof (cases "leftNotSmaller dp i j")
      case (Inl e)
      then show ?thesis using tie less.prems by (simp add: backtrack_tie)
    next
      case (Inr b)
      then show ?thesis
        using tie less.prems stepf
          less.hyps [of i "j - 1" "acc @ [(Insert, c ! (j - 1))]"]
          less.hyps [of "i - 1" j "acc @ [(Delete, u ! (i - 1))]"]
        by (cases b) (simp_all add: backtrack_tie flip: append_assoc)
    qed
  qed
qed

subsection \<open>The merging loop and the table size\<close>

lemma correctText_mergeStep:
  "correctText (mergeStep x acc) = correctText acc @ (if fst x \<noteq> Delete then [snd x] else [])"
  by (cases acc rule: rev_cases) (auto simp: mergeStep_def correctText_def)

lemma userText_mergeStep:
  "userText (mergeStep x acc) = userText acc @ (if fst x \<noteq> Insert then [snd x] else [])"
  by (cases acc rule: rev_cases) (auto simp: mergeStep_def userText_def)

lemma correctText_Nil: "correctText [] = []"
  by (simp add: correctText_def)

lemma userText_Nil: "userText [] = []"
  by (simp add: userText_def)

lemma correctText_fold_mergeStep:
  "correctText (fold mergeStep xs acc) =
     correctText acc @ map snd (filter (\<lambda>p. fst p \<noteq> Delete) xs)"
  by (induction xs arbitrary: acc) (simp_all add: correctText_mergeStep)

lemma userText_fold_mergeStep:
  "userText (fold mergeStep xs acc) =
     userText acc @ map snd (filter (\<lambda>p. fst p \<noteq> Insert) xs)"
  by (induction xs arbitrary: acc) (simp_all add: userText_mergeStep)

lemma distinct_adj_mergeStep:
  "distinct_adj (map type acc) \<Longrightarrow> distinct_adj (map type (mergeStep x acc))"
  by (cases acc rule: rev_cases) (auto simp: mergeStep_def distinct_adj_append_iff)

lemma distinct_adj_fold_mergeStep:
  "distinct_adj (map type acc) \<Longrightarrow> distinct_adj (map type (fold mergeStep xs acc))"
  by (induction xs arbitrary: acc) (simp_all add: distinct_adj_mergeStep)

lemma length_lcsCell: "length (lcsCell a b i j dp) = length dp"
  by (simp add: lcsCell_def)

lemma length_fold_lcsCell: "length (fold (\<lambda>j dp. lcsCell a b i j dp) js dp) = length dp"
  by (induction js arbitrary: dp) (simp_all add: length_lcsCell)

lemma length_fold_rows:
  "length (fold (\<lambda>i dp. fold (\<lambda>j dp. lcsCell a b i j dp) js dp) is dp) = length dp"
  by (induction "is" arbitrary: dp) (simp_all add: length_fold_lcsCell)

lemma length_computeLCS: "length (computeLCS a b) = length a + 1"
  by (simp add: computeLCS_def Let_def length_fold_rows)

text \<open>
  \<open>computeDiff\<close> returns whenever the comparison string of the user's answer is not shorter
  than the answer itself: always when \<open>caseSensitive\<close> holds, and for every lower-casing that
  does not shorten a string (the built-in never does).
\<close>

lemma computeDiff_returns:
  assumes "cs \<or> length u \<le> length (lower u)"
  shows "\<exists>segs. computeDiff lower u c cs = Inr segs"
proof -
  define cu where "cu = (if cs then u else lower u)"
  define cc where "cc = (if cs then c else lower c)"
  have "length u < length (computeLCS cu cc)"
    using assms by (auto simp: length_computeLCS cu_def)
  then obtain out where
    "backtrack u c cu cc (computeLCS cu cc) (length u) (length c) [] = Inr out"
    using backtrack_returns by blast
  then show ?thesis
    by (simp add: computeDiff_def Let_def cu_def cc_def)
qed

lemma computeDiff_correctText:
  assumes "computeDiff lower u c cs = Inr segs"
  shows "correctText segs = c"
proof -
  define cu where "cu = (if cs then u else lower u)"
  define cc where "cc = (if cs then c else lower c)"
  show ?thesis
  proof (cases "cu = cc")
    case True
    then show ?thesis using assms
      by (auto simp: computeDiff_def Let_def cu_def cc_def correctText_def)
  next
    case False
    then obtain out where
      out: "backtrack u c cu cc (computeLCS cu cc) (length u) (length c) [] = Inr out"
      and segs: "segs = fold mergeStep (rev out) []"
      using assms unfolding computeDiff_def Let_def cu_def cc_def
      by (auto split: sum.splits if_splits)
    show ?thesis
      using backtrack_correct_chars [OF out] segs
      by (simp add: correctText_fold_mergeStep correctText_Nil)
  qed
qed

lemma computeDiff_userText_fold:
  assumes "computeDiff (map f) u c False = Inr segs"
  shows "map f (userText segs) = map f u"
proof (cases "map f u = map f c")
  case True
  then show ?thesis using assms
    by (auto simp: computeDiff_def Let_def userText_def)
next
  case False
  then obtain out where
    out: "backtrack u c (map f u) (map f c) (computeLCS (map f u) (map f c))
            (length u) (length c) [] = Inr out"
    and segs: "segs = fold mergeStep (rev out) []"
    using assms unfolding computeDiff_def Let_def
    by (auto split: sum.splits if_splits)
  show ?thesis
    using backtrack_user_chars [OF out] segs
    by (simp add: userText_fold_mergeStep userText_Nil)
qed

lemma computeDiff_userText_caseSensitive:
  assumes "computeDiff lower u c True = Inr segs"
  shows "userText segs = u"
proof (cases "u = c")
  case True
  then show ?thesis using assms
    by (auto simp: computeDiff_def Let_def userText_def)
next
  case False
  then obtain out where
    out: "backtrack u c (map (\<lambda>x. x) u) (map (\<lambda>x. x) c) (computeLCS u c)
            (length u) (length c) [] = Inr out"
    and segs: "segs = fold mergeStep (rev out) []"
    using assms unfolding computeDiff_def Let_def
    by (auto split: sum.splits if_splits)
  show ?thesis
    using backtrack_user_chars [OF out] segs
    by (simp add: userText_fold_mergeStep userText_Nil)
qed

lemma computeDiff_distinct_adj:
  assumes "computeDiff lower u c cs = Inr segs"
  shows "distinct_adj (map type segs)"
  using assms unfolding computeDiff_def Let_def
  by (auto split: sum.splits if_splits intro: distinct_adj_fold_mergeStep)

lemma correctText_append: "correctText (xs @ ys) = correctText xs @ correctText ys"
  by (simp add: correctText_def)

lemma correctText_slice:
  assumes "k < length segs" "type (segs ! k) \<noteq> Delete"
  shows "correctText segs =
           correctText (take k segs) @ textOf (segs ! k) @ correctText (drop (Suc k) segs)"
proof -
  have "segs = take k segs @ [segs ! k] @ drop (Suc k) segs"
    using assms(1) by (simp add: id_take_nth_drop)
  then have "correctText segs =
      correctText (take k segs) @ correctText [segs ! k] @ correctText (drop (Suc k) segs)"
    by (metis correctText_append)
  then show ?thesis using assms(2) by (simp add: correctText_def)
qed

subsection \<open>Claims about computeDiff\<close>

text \<open>The diffs of two small examples, by evaluation.\<close>

lemma asciiLower_map: "asciiLower = map lowerChar"
  by (rule ext) (simp add: asciiLower_def)

lemma computeLCS_cAt_Cut:
  "computeLCS ''cat'' ''cut'' = [[0, 0, 0, 0], [0, 1, 1, 1], [0, 1, 1, 1], [0, 1, 1, 2]]"
  by code_simp

lemma computeLCS_cAt_Cut_caseSensitive:
  "computeLCS ''cAt'' ''Cut'' = [[0, 0, 0, 0], [0, 0, 0, 0], [0, 0, 0, 0], [0, 0, 0, 1]]"
  by code_simp

lemma computeDiff_cAt_Cut:
  "computeDiff asciiLower ''cAt'' ''Cut'' False =
     Inr [\<lparr>type = Equal, textOf = ''C''\<rparr>, \<lparr>type = Delete, textOf = ''A''\<rparr>,
          \<lparr>type = Insert, textOf = ''u''\<rparr>, \<lparr>type = Equal, textOf = ''t''\<rparr>]"
  by (simp add: computeDiff_def asciiLower_def lowerChar_def computeLCS_cAt_Cut
      backtrack.simps leftNotSmaller_def charAt_def mergeStep_def)

lemma computeDiff_cAt_Cut_caseSensitive:
  "computeDiff asciiLower ''cAt'' ''Cut'' True =
     Inr [\<lparr>type = Delete, textOf = ''cA''\<rparr>, \<lparr>type = Insert, textOf = ''Cu''\<rparr>,
          \<lparr>type = Equal, textOf = ''t''\<rparr>]"
  by (simp add: computeDiff_def computeLCS_cAt_Cut_caseSensitive
      backtrack.simps leftNotSmaller_def charAt_def mergeStep_def)

text \<open>
  C1, as the claim states it, fails: with \<open>caseSensitive = false\<close> the answers \<open>Cat\<close> and
  \<open>cat\<close> are identical under the fold, the result is the single segment \<open>Equal cat\<close>, and
  the text of the segments that are not \<open>Insert\<close> is \<open>cat\<close>, not the user's \<open>Cat\<close>.
\<close>

theorem computeDiff_userText_counterexample:
  "computeDiff asciiLower ''Cat'' ''cat'' False = Inr [\<lparr>type = Equal, textOf = ''cat''\<rparr>]
   \<and> userText [\<lparr>type = Equal, textOf = ''cat''\<rparr>] \<noteq> ''Cat''"
  by (simp add: computeDiff_def asciiLower_def lowerChar_def userText_def)

text \<open>
  C1, amended: \<open>computeDiff\<close> returns a segment list; the text of its segments that are not
  \<open>Delete\<close> is \<open>correctAnswer\<close> exactly; the text of its segments that are not \<open>Insert\<close> is
  \<open>userAnswer\<close> exactly when \<open>caseSensitive\<close> is true, and is \<open>userAnswer\<close> up to the case
  fold when the fold works code unit by code unit (\<open>Equal\<close> segments carry the correct
  answer's characters).
\<close>

theorem computeDiff_reconstruction:
  assumes "caseSensitive \<or> length userAnswer \<le> length (lower userAnswer)"
  shows "\<exists>segs. computeDiff lower userAnswer correctAnswer caseSensitive = Inr segs \<and>
           correctText segs = correctAnswer \<and>
           (caseSensitive \<longrightarrow> userText segs = userAnswer) \<and>
           (\<forall>f. lower = map f \<longrightarrow> map f (userText segs) = map f userAnswer)"
proof -
  obtain segs where segs: "computeDiff lower userAnswer correctAnswer caseSensitive = Inr segs"
    using computeDiff_returns [where lower = lower and u = userAnswer and cs = caseSensitive, OF assms]
    by blast
  have c: "correctText segs = correctAnswer"
    using segs by (rule computeDiff_correctText)
  have u: "userText segs = userAnswer" if caseSensitive
    using segs that by (simp add: computeDiff_userText_caseSensitive)
  have f: "map f (userText segs) = map f userAnswer" if "lower = map f" for f
  proof (cases caseSensitive)
    case True
    then show ?thesis using u by simp
  next
    case False
    then show ?thesis using segs that by (simp add: computeDiff_userText_fold)
  qed
  show ?thesis using segs c u f by blast
qed

theorem computeDiff_reconstruction_witness:
  "(correctText [\<lparr>type = Equal, textOf = ''C''\<rparr>, \<lparr>type = Delete, textOf = ''A''\<rparr>,
                 \<lparr>type = Insert, textOf = ''u''\<rparr>, \<lparr>type = Equal, textOf = ''t''\<rparr>] = ''Cut''
    \<and> map lowerChar
         (userText [\<lparr>type = Equal, textOf = ''C''\<rparr>, \<lparr>type = Delete, textOf = ''A''\<rparr>,
                    \<lparr>type = Insert, textOf = ''u''\<rparr>, \<lparr>type = Equal, textOf = ''t''\<rparr>])
        = map lowerChar ''cAt'')
   \<and> (correctText [\<lparr>type = Delete, textOf = ''cA''\<rparr>, \<lparr>type = Insert, textOf = ''Cu''\<rparr>,
                   \<lparr>type = Equal, textOf = ''t''\<rparr>] = ''Cut''
      \<and> userText [\<lparr>type = Delete, textOf = ''cA''\<rparr>, \<lparr>type = Insert, textOf = ''Cu''\<rparr>,
                   \<lparr>type = Equal, textOf = ''t''\<rparr>] = ''cAt'')"
proof -
  have h1: "False \<or> length ''cAt'' \<le> length (asciiLower ''cAt'')"
    by (simp add: asciiLower_def)
  have h2: "True \<or> length ''cAt'' \<le> length (asciiLower ''cAt'')"
    by simp
  obtain segs where segs: "computeDiff asciiLower ''cAt'' ''Cut'' False = Inr segs"
    and c1: "correctText segs = ''Cut''"
    and f1: "\<forall>f. asciiLower = map f \<longrightarrow> map f (userText segs) = map f ''cAt''"
    using computeDiff_reconstruction [where lower = asciiLower and userAnswer = "''cAt''"
          and caseSensitive = False and correctAnswer = "''Cut''", OF h1]
    by blast
  obtain segs' where segs': "computeDiff asciiLower ''cAt'' ''Cut'' True = Inr segs'"
    and c2: "correctText segs' = ''Cut''"
    and u2: "userText segs' = ''cAt''"
    using computeDiff_reconstruction [where lower = asciiLower and userAnswer = "''cAt''"
          and caseSensitive = True and correctAnswer = "''Cut''", OF h2]
    by blast
  have eq: "segs = [\<lparr>type = Equal, textOf = ''C''\<rparr>, \<lparr>type = Delete, textOf = ''A''\<rparr>,
                    \<lparr>type = Insert, textOf = ''u''\<rparr>, \<lparr>type = Equal, textOf = ''t''\<rparr>]"
    using segs by (simp add: computeDiff_cAt_Cut)
  have eq': "segs' = [\<lparr>type = Delete, textOf = ''cA''\<rparr>, \<lparr>type = Insert, textOf = ''Cu''\<rparr>,
                      \<lparr>type = Equal, textOf = ''t''\<rparr>]"
    using segs' by (simp add: computeDiff_cAt_Cut_caseSensitive)
  have f1': "map lowerChar (userText segs) = map lowerChar ''cAt''"
    using f1 asciiLower_map by blast
  show ?thesis
    using c1 [unfolded eq] f1' [unfolded eq] c2 [unfolded eq'] u2 [unfolded eq'] by blast
qed

text \<open>
  C3: no two consecutive segments of the result have the same kind.
\<close>

theorem computeDiff_adjacent_types_differ:
  assumes "caseSensitive \<or> length userAnswer \<le> length (lower userAnswer)"
  shows "\<exists>segs. computeDiff lower userAnswer correctAnswer caseSensitive = Inr segs \<and>
           (\<forall>k. Suc k < length segs \<longrightarrow> type (segs ! k) \<noteq> type (segs ! Suc k))"
proof -
  obtain segs where segs: "computeDiff lower userAnswer correctAnswer caseSensitive = Inr segs"
    using computeDiff_returns [where lower = lower and u = userAnswer and cs = caseSensitive, OF assms]
    by blast
  have "distinct_adj (map type segs)"
    using segs by (rule computeDiff_distinct_adj)
  then have "\<forall>k. Suc k < length segs \<longrightarrow> type (segs ! k) \<noteq> type (segs ! Suc k)"
    by (simp add: distinct_adj_conv_nth)
  then show ?thesis using segs by blast
qed

theorem computeDiff_adjacent_types_differ_witness:
  "computeDiff asciiLower ''cAt'' ''Cut'' False =
     Inr [\<lparr>type = Equal, textOf = ''C''\<rparr>, \<lparr>type = Delete, textOf = ''A''\<rparr>,
          \<lparr>type = Insert, textOf = ''u''\<rparr>, \<lparr>type = Equal, textOf = ''t''\<rparr>]
   \<and> type \<lparr>type = Equal, textOf = ''C''\<rparr> \<noteq> type \<lparr>type = Delete, textOf = ''A''\<rparr>
   \<and> type \<lparr>type = Delete, textOf = ''A''\<rparr> \<noteq> type \<lparr>type = Insert, textOf = ''u''\<rparr>
   \<and> type \<lparr>type = Insert, textOf = ''u''\<rparr> \<noteq> type \<lparr>type = Equal, textOf = ''t''\<rparr>"
proof -
  have h: "False \<or> length ''cAt'' \<le> length (asciiLower ''cAt'')"
    by (simp add: asciiLower_def)
  obtain segs where segs: "computeDiff asciiLower ''cAt'' ''Cut'' False = Inr segs"
    and adj: "\<forall>k. Suc k < length segs \<longrightarrow> type (segs ! k) \<noteq> type (segs ! Suc k)"
    using computeDiff_adjacent_types_differ [where lower = asciiLower
          and userAnswer = "''cAt''" and caseSensitive = False and correctAnswer = "''Cut''", OF h]
    by blast
  have eq: "segs = [\<lparr>type = Equal, textOf = ''C''\<rparr>, \<lparr>type = Delete, textOf = ''A''\<rparr>,
                    \<lparr>type = Insert, textOf = ''u''\<rparr>, \<lparr>type = Equal, textOf = ''t''\<rparr>]"
    using segs by (simp add: computeDiff_cAt_Cut)
  have k0: "type (segs ! 0) \<noteq> type (segs ! Suc 0)"
    using adj [rule_format, of 0] by (simp add: eq)
  have k1: "type (segs ! 1) \<noteq> type (segs ! Suc 1)"
    using adj [rule_format, of 1] by (simp add: eq)
  have k2: "type (segs ! 2) \<noteq> type (segs ! Suc 2)"
    using adj [rule_format, of 2] by (simp add: eq)
  show ?thesis
    using k0 k1 k2 computeDiff_cAt_Cut by (simp add: eq)
qed

text \<open>
  C10: every \<open>Equal\<close> segment of the result is a piece of \<open>correctAnswer\<close> itself, in its
  original casing: it is the slice of \<open>correctAnswer\<close> that starts where the text of the
  earlier segments that are not \<open>Delete\<close> ends. This holds on the fast path and after
  backtracking alike.
\<close>

theorem computeDiff_equal_text_from_correctAnswer:
  assumes "caseSensitive \<or> length userAnswer \<le> length (lower userAnswer)"
  shows "\<exists>segs. computeDiff lower userAnswer correctAnswer caseSensitive = Inr segs \<and>
           (\<forall>k < length segs. type (segs ! k) = Equal \<longrightarrow>
              correctAnswer =
                correctText (take k segs) @ textOf (segs ! k) @ correctText (drop (Suc k) segs))"
proof -
  obtain segs where segs: "computeDiff lower userAnswer correctAnswer caseSensitive = Inr segs"
    using computeDiff_returns [where lower = lower and u = userAnswer and cs = caseSensitive, OF assms]
    by blast
  have c: "correctText segs = correctAnswer"
    using segs by (rule computeDiff_correctText)
  have "correctAnswer =
          correctText (take k segs) @ textOf (segs ! k) @ correctText (drop (Suc k) segs)"
    if "k < length segs" "type (segs ! k) = Equal" for k
    using correctText_slice [of k segs] that c by simp
  then show ?thesis using segs by blast
qed

theorem computeDiff_equal_text_from_correctAnswer_witness:
  "computeDiff asciiLower ''cAt'' ''Cut'' False =
     Inr [\<lparr>type = Equal, textOf = ''C''\<rparr>, \<lparr>type = Delete, textOf = ''A''\<rparr>,
          \<lparr>type = Insert, textOf = ''u''\<rparr>, \<lparr>type = Equal, textOf = ''t''\<rparr>]
   \<and> ''Cut'' = correctText [] @ ''C'' @
        correctText [\<lparr>type = Delete, textOf = ''A''\<rparr>, \<lparr>type = Insert, textOf = ''u''\<rparr>,
                     \<lparr>type = Equal, textOf = ''t''\<rparr>]
   \<and> ''Cut'' = correctText [\<lparr>type = Equal, textOf = ''C''\<rparr>, \<lparr>type = Delete, textOf = ''A''\<rparr>,
                            \<lparr>type = Insert, textOf = ''u''\<rparr>] @ ''t'' @ correctText []"
proof -
  have h: "False \<or> length ''cAt'' \<le> length (asciiLower ''cAt'')"
    by (simp add: asciiLower_def)
  obtain segs where segs: "computeDiff asciiLower ''cAt'' ''Cut'' False = Inr segs"
    and slice: "\<forall>k < length segs. type (segs ! k) = Equal \<longrightarrow>
      ''Cut'' = correctText (take k segs) @ textOf (segs ! k) @ correctText (drop (Suc k) segs)"
    using computeDiff_equal_text_from_correctAnswer [where lower = asciiLower
          and userAnswer = "''cAt''" and caseSensitive = False and correctAnswer = "''Cut''", OF h]
    by blast
  have eq: "segs = [\<lparr>type = Equal, textOf = ''C''\<rparr>, \<lparr>type = Delete, textOf = ''A''\<rparr>,
                    \<lparr>type = Insert, textOf = ''u''\<rparr>, \<lparr>type = Equal, textOf = ''t''\<rparr>]"
    using segs by (simp add: computeDiff_cAt_Cut)
  have k0: "''Cut'' = correctText [] @ ''C'' @
        correctText [\<lparr>type = Delete, textOf = ''A''\<rparr>, \<lparr>type = Insert, textOf = ''u''\<rparr>,
                     \<lparr>type = Equal, textOf = ''t''\<rparr>]"
    using slice [rule_format, of 0] by (simp add: eq)
  have k3: "''Cut'' = correctText [\<lparr>type = Equal, textOf = ''C''\<rparr>, \<lparr>type = Delete, textOf = ''A''\<rparr>,
                            \<lparr>type = Insert, textOf = ''u''\<rparr>] @ ''t'' @ correctText []"
    using slice [rule_format, of 3] by (simp add: eq)
  show ?thesis
    using k0 k3 computeDiff_cAt_Cut by blast
qed

subsection \<open>Claims about isAnswerCorrect\<close>

lemma trim_decompose:
  "s = takeWhile ws s @ trim ws s @ rev (takeWhile ws (rev (dropWhile ws s)))"
proof -
  have "rev (dropWhile ws s) =
          takeWhile ws (rev (dropWhile ws s)) @ dropWhile ws (rev (dropWhile ws s))"
    by simp
  then have "dropWhile ws s =
          rev (dropWhile ws (rev (dropWhile ws s))) @ rev (takeWhile ws (rev (dropWhile ws s)))"
    by (metis rev_append rev_rev_ident)
  then have "dropWhile ws s = trim ws s @ rev (takeWhile ws (rev (dropWhile ws s)))"
    by (simp add: trim_def)
  then show ?thesis
    by (metis takeWhile_dropWhile_id)
qed

lemma trim_last: "trim ws s \<noteq> [] \<Longrightarrow> \<not> ws (last (trim ws s))"
  by (simp add: trim_def last_rev hd_dropWhile)

lemma trim_hd:
  assumes "trim ws s \<noteq> []"
  shows "\<not> ws (hd (trim ws s))"
proof -
  have "dropWhile ws s = trim ws s @ rev (takeWhile ws (rev (dropWhile ws s)))"
    using trim_decompose [of s ws] by (metis same_append_eq takeWhile_dropWhile_id)
  then have "hd (dropWhile ws s) = hd (trim ws s)" and "dropWhile ws s \<noteq> []"
    using assms by (metis hd_append2, metis append_is_Nil_conv)
  then show ?thesis
    by (metis hd_dropWhile)
qed

text \<open>
  C5: \<open>isAnswerCorrect\<close> compares the trimmed strings, directly when \<open>caseSensitive\<close> is
  true and after lower-casing both when it is false. The trimmed string is the string
  without a leading and a trailing run of white space, and neither begins nor ends with
  white space. The three examples of the specification evaluate as stated.
\<close>

theorem isAnswerCorrect_trims_then_compares:
  "isAnswerCorrect lower ws userAnswer correctAnswer True =
     (trim ws userAnswer = trim ws correctAnswer)
   \<and> isAnswerCorrect lower ws userAnswer correctAnswer False =
     (lower (trim ws userAnswer) = lower (trim ws correctAnswer))
   \<and> (\<exists>pre post. s = pre @ trim ws s @ post \<and> list_all ws pre \<and> list_all ws post)
   \<and> (trim ws s = [] \<or> \<not> (ws (hd (trim ws s)) \<or> ws (last (trim ws s))))
   \<and> isAnswerCorrect asciiLower isWhiteSpace '' cat '' ''cat'' False
   \<and> \<not> isAnswerCorrect asciiLower isWhiteSpace ''Cat'' ''cat'' True
   \<and> isAnswerCorrect asciiLower isWhiteSpace ''Cat'' ''cat'' False"
proof -
  have a: "isAnswerCorrect lower ws userAnswer correctAnswer True =
     (trim ws userAnswer = trim ws correctAnswer)"
    by (simp add: isAnswerCorrect_def)
  have b: "isAnswerCorrect lower ws userAnswer correctAnswer False =
     (lower (trim ws userAnswer) = lower (trim ws correctAnswer))"
    by (simp add: isAnswerCorrect_def)
  have "list_all ws (takeWhile ws s)"
    "list_all ws (rev (takeWhile ws (rev (dropWhile ws s))))"
    by (auto simp: list_all_iff dest: set_takeWhileD)
  then have c: "\<exists>pre post. s = pre @ trim ws s @ post \<and> list_all ws pre \<and> list_all ws post"
    using trim_decompose [of s ws] by blast
  have d: "trim ws s = [] \<or> \<not> (ws (hd (trim ws s)) \<or> ws (last (trim ws s)))"
    using trim_hd [of ws s] trim_last [of ws s] by blast
  have e: "isAnswerCorrect asciiLower isWhiteSpace '' cat '' ''cat'' False"
    by (simp add: isAnswerCorrect_def trim_def isWhiteSpace_def asciiLower_def lowerChar_def)
  have f: "\<not> isAnswerCorrect asciiLower isWhiteSpace ''Cat'' ''cat'' True"
    by (simp add: isAnswerCorrect_def trim_def isWhiteSpace_def)
  have g: "isAnswerCorrect asciiLower isWhiteSpace ''Cat'' ''cat'' False"
    by (simp add: isAnswerCorrect_def trim_def isWhiteSpace_def asciiLower_def lowerChar_def)
  show ?thesis using a b c d e f g by blast
qed

theorem isAnswerCorrect_trims_then_compares_witness:
  "isAnswerCorrect asciiLower isWhiteSpace '' cat '' ''cat'' False =
     (asciiLower (trim isWhiteSpace '' cat '') = asciiLower (trim isWhiteSpace ''cat''))
   \<and> trim isWhiteSpace '' cat '' = ''cat''
   \<and> \<not> (isWhiteSpace (hd (trim isWhiteSpace '' cat ''))
           \<or> isWhiteSpace (last (trim isWhiteSpace '' cat '')))"
proof -
  have t: "trim isWhiteSpace '' cat '' = ''cat''"
    by (simp add: trim_def isWhiteSpace_def)
  show ?thesis
    using isAnswerCorrect_trims_then_compares
      [of asciiLower isWhiteSpace "'' cat ''" "''cat''" "'' cat ''"]
    by (simp add: t)
qed

section \<open>The table of computeLCS\<close>

subsection \<open>The loops fill the table with the recurrence\<close>

lemma lcsTable_zero_right: "lcsTable a b i 0 = 0"
  by (cases i) simp_all

lemma lcsTable_pos:
  "0 < i \<Longrightarrow> 0 < j \<Longrightarrow>
   lcsTable a b i j =
     (if a ! (i - 1) = b ! (j - 1) then Suc (lcsTable a b (i - 1) (j - 1))
      else max (lcsTable a b (i - 1) j) (lcsTable a b i (j - 1)))"
  by (cases i; cases j) simp_all

lemma tableFilled_init:
  "tableFilled a b (replicate (length a + 1) (replicate (length b + 1) 0)) 1 1"
proof -
  have row: "replicate (length a + 1) (replicate (length b + 1) (0::nat)) ! r =
               replicate (length b + 1) 0" if "r \<le> length a" for r
    using that by (intro nth_replicate) simp
  have cell: "replicate (length b + 1) (0::nat) ! c = 0" if "c \<le> length b" for c
    using that by (intro nth_replicate) simp
  have zero: "lcsTable a b r c = 0" if "r < 1 \<or> (r = 1 \<and> c < 1) \<or> c = 0" for r c
    using that by (auto simp: lcsTable_zero_right)
  show ?thesis
    unfolding tableFilled_def
    by (intro conjI allI impI) (simp_all only: row cell zero length_replicate)
qed

lemma tableFilled_cell:
  assumes inv: "tableFilled a b dp i k"
    and i: "0 < i" "i \<le> length a" and k: "0 < k" "k \<le> length b"
  shows "tableFilled a b (lcsCell a b i k dp) i (Suc k)"
proof -
  have len: "length dp = length a + 1"
    and rows: "\<And>r. r \<le> length a \<Longrightarrow> length (dp ! r) = length b + 1"
    and ent: "\<And>r c. r \<le> length a \<Longrightarrow> c \<le> length b \<Longrightarrow> r < i \<or> (r = i \<and> c < k) \<or> c = 0 \<Longrightarrow>
               dp ! r ! c = lcsTable a b r c"
    using inv unfolding tableFilled_def by auto
  define v where "v = (if a ! (i - 1) = b ! (k - 1) then dp ! (i - 1) ! (k - 1) + 1
                        else max (dp ! (i - 1) ! k) (dp ! i ! (k - 1)))"
  have cell: "lcsCell a b i k dp = dp[i := (dp ! i)[k := v]]"
    by (simp add: lcsCell_def v_def)
  have d1: "dp ! (i - 1) ! (k - 1) = lcsTable a b (i - 1) (k - 1)"
    using i k by (intro ent) auto
  have d2: "dp ! (i - 1) ! k = lcsTable a b (i - 1) k"
    using i k by (intro ent) auto
  have d3: "dp ! i ! (k - 1) = lcsTable a b i (k - 1)"
    using i k by (intro ent) auto
  have v: "v = lcsTable a b i k"
    unfolding v_def d1 d2 d3 using i k by (simp add: lcsTable_pos)
  have ilt: "i < length dp" using i len by simp
  have klt: "k < length (dp ! i)" using rows [of i] i k by simp
  show ?thesis
    unfolding tableFilled_def cell
  proof (intro conjI allI impI)
    show "length (dp[i := (dp ! i)[k := v]]) = length a + 1"
      using len by simp
  next
    fix r assume "r \<le> length a"
    then show "length (dp[i := (dp ! i)[k := v]] ! r) = length b + 1"
      using rows [of r] rows [of i] i len by (cases "r = i") simp_all
  next
    fix r c
    assume h: "r \<le> length a \<and> c \<le> length b \<and> (r < i \<or> r = i \<and> c < Suc k \<or> c = 0)"
    show "dp[i := (dp ! i)[k := v]] ! r ! c = lcsTable a b r c"
    proof (cases "r = i \<and> c = k")
      case True
      then show ?thesis using ilt klt v by simp
    next
      case False
      have "dp[i := (dp ! i)[k := v]] ! r ! c = dp ! r ! c"
        using False ilt by (cases "r = i") (simp_all)
      moreover have "dp ! r ! c = lcsTable a b r c"
        using h False by (intro ent) auto
      ultimately show ?thesis by simp
    qed
  qed
qed

lemma tableFilled_row:
  assumes "tableFilled a b dp i k" "0 < i" "i \<le> length a" "0 < k" "k \<le> length b + 1"
  shows "tableFilled a b (fold (\<lambda>j dp. lcsCell a b i j dp) [k..<length b + 1] dp) i (length b + 1)"
  using assms
proof (induction "length b + 1 - k" arbitrary: k dp)
  case 0
  then have "k = length b + 1" by simp
  then show ?case using "0.prems"(1) by simp
next
  case (Suc d)
  then have klt: "k < length b + 1" by simp
  have upt: "[k..<length b + 1] = k # [Suc k..<length b + 1]"
    using klt by (simp add: upt_conv_Cons)
  have step: "tableFilled a b (lcsCell a b i k dp) i (Suc k)"
    using tableFilled_cell [OF Suc.prems(1-4)] klt by simp
  have "tableFilled a b (fold (\<lambda>j dp. lcsCell a b i j dp) [Suc k..<length b + 1] (lcsCell a b i k dp))
          i (length b + 1)"
    using Suc.hyps(2) klt Suc.prems(2,3)
    by (intro Suc.hyps(1) [OF _ step]) simp_all
  then show ?case by (simp only: upt fold_simps)
qed

lemma tableFilled_next_row:
  assumes "tableFilled a b dp i (length b + 1)"
  shows "tableFilled a b dp (Suc i) 1"
proof -
  have len: "length dp = length a + 1"
    and rows: "\<forall>r \<le> length a. length (dp ! r) = length b + 1"
    and ent: "\<And>r c. r \<le> length a \<Longrightarrow> c \<le> length b \<Longrightarrow>
               r < i \<or> (r = i \<and> c < length b + 1) \<or> c = 0 \<Longrightarrow>
               dp ! r ! c = lcsTable a b r c"
    using assms unfolding tableFilled_def by auto
  have "dp ! r ! c = lcsTable a b r c"
    if "r \<le> length a \<and> c \<le> length b \<and> (r < Suc i \<or> (r = Suc i \<and> c < 1) \<or> c = 0)" for r c
  proof -
    have "r < i \<or> (r = i \<and> c < length b + 1) \<or> c = 0"
      using that by auto
    then show ?thesis using that by (intro ent) auto
  qed
  then show ?thesis
    unfolding tableFilled_def using len rows by blast
qed

lemma tableFilled_rows:
  assumes "tableFilled a b dp i 1" "0 < i" "i \<le> length a + 1"
  shows "tableFilled a b
           (fold (\<lambda>i dp. fold (\<lambda>j dp. lcsCell a b i j dp) [1..<length b + 1] dp)
              [i..<length a + 1] dp)
           (length a + 1) 1"
  using assms
proof (induction "length a + 1 - i" arbitrary: i dp)
  case 0
  then have "i = length a + 1" by simp
  then show ?case using "0.prems"(1) by simp
next
  case (Suc d)
  then have ilt: "i < length a + 1" by simp
  have upt: "[i..<length a + 1] = i # [Suc i..<length a + 1]"
    using ilt by (simp add: upt_conv_Cons)
  have row: "tableFilled a b (fold (\<lambda>j dp. lcsCell a b i j dp) [1..<length b + 1] dp) i (length b + 1)"
    using Suc.prems ilt by (intro tableFilled_row) simp_all
  have nxt: "tableFilled a b (fold (\<lambda>j dp. lcsCell a b i j dp) [1..<length b + 1] dp) (Suc i) 1"
    using row by (rule tableFilled_next_row)
  have "tableFilled a b
          (fold (\<lambda>i dp. fold (\<lambda>j dp. lcsCell a b i j dp) [1..<length b + 1] dp)
             [Suc i..<length a + 1] (fold (\<lambda>j dp. lcsCell a b i j dp) [1..<length b + 1] dp))
          (length a + 1) 1"
    using Suc.hyps(2) ilt by (intro Suc.hyps(1) [OF _ nxt]) simp_all
  then show ?case by (simp only: upt fold_simps)
qed

lemma computeLCS_filled: "tableFilled a b (computeLCS a b) (length a + 1) 1"
  unfolding computeLCS_def Let_def
  by (rule tableFilled_rows [OF tableFilled_init]) simp_all

lemma computeLCS_entry:
  "i \<le> length a \<Longrightarrow> j \<le> length b \<Longrightarrow> computeLCS a b ! i ! j = lcsTable a b i j"
  using computeLCS_filled [of a b] unfolding tableFilled_def by auto

lemma computeLCS_row_length:
  "i \<le> length a \<Longrightarrow> length (computeLCS a b ! i) = length b + 1"
  using computeLCS_filled [of a b] unfolding tableFilled_def by auto

subsection \<open>The backtracking loop against the reference\<close>

lemma leftNotSmaller_table:
  assumes "i < length a" "j < length b"
  shows "leftNotSmaller (computeLCS a b) (Suc i) (Suc j) =
           Inr (lcsTable a b (Suc i) j \<ge> lcsTable a b i (Suc j))"
  using assms
  by (simp add: leftNotSmaller_def charAt_def length_computeLCS computeLCS_row_length
      computeLCS_entry)

lemma backtrack_reference:
  assumes "length u \<le> length cu" "length c \<le> length cc" "i \<le> length u" "j \<le> length c"
  shows "backtrack u c cu cc (computeLCS cu cc) i j acc =
           Inr (acc @ rev (referenceAlignment u c cu cc i j))"
  using assms
proof (induction u c cu cc i j arbitrary: acc rule: referenceAlignment.induct)
  case (1 u c cu cc)
  show ?case by (simp add: backtrack_done)
next
  case (2 u c cu cc j)
  then show ?case by (simp add: backtrack_insert0)
next
  case (3 u c cu cc i)
  then show ?case by (simp add: backtrack_delete0)
next
  case (4 u c cu cc i j)
  have lt: "i < length cu" "j < length cc"
    using "4.prems" by simp_all
  have ch: "charAt cu (Suc i - 1) = Some (cu ! i)" "charAt cc (Suc j - 1) = Some (cc ! j)"
    using lt by (simp_all add: charAt_def)
  show ?case
  proof (cases "cu ! i = cc ! j")
    case True
    have "backtrack u c cu cc (computeLCS cu cc) (Suc i) (Suc j) acc =
            backtrack u c cu cc (computeLCS cu cc) i j (acc @ [(Equal, c ! j)])"
      using True ch by (simp add: backtrack_equal)
    also have "\<dots> = Inr ((acc @ [(Equal, c ! j)]) @ rev (referenceAlignment u c cu cc i j))"
      using True "4.prems" by (intro "4.IH"(1)) simp_all
    finally show ?thesis using True by simp
  next
    case False
    have ne: "charAt cu (Suc i - 1) \<noteq> charAt cc (Suc j - 1)"
      using False ch by simp
    show ?thesis
    proof (cases "lcsTable cu cc (Suc i) j \<ge> lcsTable cu cc i (Suc j)")
      case True
      have "backtrack u c cu cc (computeLCS cu cc) (Suc i) (Suc j) acc =
              backtrack u c cu cc (computeLCS cu cc) (Suc i) j (acc @ [(Insert, c ! j)])"
        using True ne lt by (simp add: backtrack_tie leftNotSmaller_table)
      also have "\<dots> =
          Inr ((acc @ [(Insert, c ! j)]) @ rev (referenceAlignment u c cu cc (Suc i) j))"
        using False True "4.prems" by (intro "4.IH"(2)) simp_all
      finally show ?thesis using False True by simp
    next
      case nle: False
      have "backtrack u c cu cc (computeLCS cu cc) (Suc i) (Suc j) acc =
              backtrack u c cu cc (computeLCS cu cc) i (Suc j) (acc @ [(Delete, u ! i)])"
        using nle ne lt by (simp add: backtrack_tie leftNotSmaller_table)
      also have "\<dots> =
          Inr ((acc @ [(Delete, u ! i)]) @ rev (referenceAlignment u c cu cc i (Suc j)))"
        using False nle "4.prems" by (intro "4.IH"(3)) simp_all
      finally show ?thesis using False nle by simp
    qed
  qed
qed

lemma mergeRuns_snoc: "mergeRuns (xs @ [x]) = mergeStep x (mergeRuns xs)"
proof (induction xs)
  case Nil
  show ?case by (simp add: mergeStep_def)
next
  case (Cons y xs)
  show ?case
  proof (cases "mergeRuns xs" rule: rev_cases)
    case Nil
    then show ?thesis using Cons.IH by (simp add: mergeStep_def)
  next
    case (snoc ss s)
    then show ?thesis using Cons.IH
      by (cases ss) (auto simp: mergeStep_def butlast_append split: list.splits if_splits)
  qed
qed

lemma fold_mergeStep_mergeRuns: "fold mergeStep xs [] = mergeRuns xs"
  by (induction xs rule: rev_induct) (simp_all add: mergeRuns_snoc)

subsection \<open>The recurrence gives the length of a longest common subsequence\<close>

lemma subseq_snoc_cases:
  assumes "subseq zs (xs @ [x])"
  shows "subseq zs xs \<or> (\<exists>zs'. zs = zs' @ [x] \<and> subseq zs' xs)"
proof -
  obtain z1 z2 where z: "zs = z1 @ z2" "subseq z1 xs" "subseq z2 [x]"
    using assms by (rule subseq_appendE)
  have "z2 = [] \<or> z2 = [x]"
    using z(3) by (cases z2) (auto split: if_splits)
  then show ?thesis using z by auto
qed

lemma subseq_butlast_left: "subseq (zs @ [z]) xs \<Longrightarrow> subseq zs xs"
  by (metis subseq_order.order_trans prefix_imp_subseq prefixI)

lemma lcsTable_upper:
  assumes "i \<le> length a" "j \<le> length b"
    "subseq zs (take i a)" "subseq zs (take j b)"
  shows "length zs \<le> lcsTable a b i j"
  using assms
proof (induction a b i j arbitrary: zs rule: lcsTable.induct)
  case (1 a b j)
  then show ?case by simp
next
  case (2 a b i)
  then show ?case by simp
next
  case (3 a b i j)
  have ta: "take (Suc i) a = take i a @ [a ! i]"
    using "3.prems"(1) by (simp add: take_Suc_conv_app_nth)
  have tb: "take (Suc j) b = take j b @ [b ! j]"
    using "3.prems"(2) by (simp add: take_Suc_conv_app_nth)
  have le: "i \<le> length a" "j \<le> length b"
    using "3.prems"(1,2) by simp_all
  have sa: "subseq zs (take i a @ [a ! i])"
    using "3.prems"(3) by (simp only: ta)
  have sb: "subseq zs (take j b @ [b ! j])"
    using "3.prems"(4) by (simp only: tb)
  consider (A) "subseq zs (take i a)"
    | (B) zs' where "zs = zs' @ [a ! i]" "subseq zs' (take i a)"
    using subseq_snoc_cases [OF sa] by blast
  then show ?case
  proof cases
    case A
    show ?thesis
    proof (cases "a ! i = b ! j")
      case True
      have eq: "lcsTable a b (Suc i) (Suc j) = Suc (lcsTable a b i j)"
        using True by simp
      consider (A1) "subseq zs (take j b)"
        | (A2) zs' where "zs = zs' @ [b ! j]" "subseq zs' (take j b)"
        using subseq_snoc_cases [OF sb] by blast
      then show ?thesis
      proof cases
        case A1
        have "length zs \<le> lcsTable a b i j"
          by (rule "3.IH"(1) [OF True le A A1])
        then show ?thesis unfolding eq by simp
      next
        case A2
        have "subseq zs' (take i a)"
          using A unfolding A2(1) by (rule subseq_butlast_left)
        then have "length zs' \<le> lcsTable a b i j"
          using A2(2) by (rule "3.IH"(1) [OF True le])
        then show ?thesis unfolding eq A2(1) by simp
      qed
    next
      case False
      have eq: "lcsTable a b (Suc i) (Suc j) =
                  max (lcsTable a b i (Suc j)) (lcsTable a b (Suc i) j)"
        using False by simp
      have "length zs \<le> lcsTable a b i (Suc j)"
        by (rule "3.IH"(2) [OF False le(1) "3.prems"(2) A "3.prems"(4)])
      then show ?thesis unfolding eq by simp
    qed
  next
    case B
    show ?thesis
    proof (cases "a ! i = b ! j")
      case True
      have eq: "lcsTable a b (Suc i) (Suc j) = Suc (lcsTable a b i j)"
        using True by simp
      have "subseq (zs' @ [b ! j]) (take j b @ [b ! j])"
        using sb unfolding B(1) True .
      then have "subseq zs' (take j b)"
        by (simp only: subseq_append)
      then have "length zs' \<le> lcsTable a b i j"
        by (rule "3.IH"(1) [OF True le B(2)])
      then show ?thesis unfolding eq B(1) by simp
    next
      case False
      have eq: "lcsTable a b (Suc i) (Suc j) =
                  max (lcsTable a b i (Suc j)) (lcsTable a b (Suc i) j)"
        using False by simp
      consider (B1) "subseq zs (take j b)"
        | (B2) zs'' where "zs = zs'' @ [b ! j]" "subseq zs'' (take j b)"
        using subseq_snoc_cases [OF sb] by blast
      then show ?thesis
      proof cases
        case B1
        have "length zs \<le> lcsTable a b (Suc i) j"
          by (rule "3.IH"(3) [OF False "3.prems"(1) le(2) "3.prems"(3) B1])
        then show ?thesis unfolding eq by simp
      next
        case B2
        have "zs' @ [a ! i] = zs'' @ [b ! j]"
          using B(1) B2(1) by simp
        then have "a ! i = b ! j" by simp
        then show ?thesis using False by simp
      qed
    qed
  qed
qed

lemma lcsTable_attained:
  assumes "i \<le> length a" "j \<le> length b"
  shows "\<exists>zs. subseq zs (take i a) \<and> subseq zs (take j b) \<and> length zs = lcsTable a b i j"
  using assms
proof (induction a b i j rule: lcsTable.induct)
  case (1 a b j)
  show ?case by simp
next
  case (2 a b i)
  show ?case by simp
next
  case (3 a b i j)
  have ta: "take (Suc i) a = take i a @ [a ! i]"
    using "3.prems"(1) by (simp add: take_Suc_conv_app_nth)
  have tb: "take (Suc j) b = take j b @ [b ! j]"
    using "3.prems"(2) by (simp add: take_Suc_conv_app_nth)
  have le: "i \<le> length a" "j \<le> length b"
    using "3.prems"(1,2) by simp_all
  show ?case
  proof (cases "a ! i = b ! j")
    case True
    have eq: "lcsTable a b (Suc i) (Suc j) = Suc (lcsTable a b i j)"
      using True by simp
    obtain zs where zs: "subseq zs (take i a)" "subseq zs (take j b)"
      "length zs = lcsTable a b i j"
      using "3.IH"(1) [OF True le] by blast
    have "subseq (zs @ [a ! i]) (take i a @ [a ! i])"
      using zs(1) by (simp only: subseq_append)
    then have s1: "subseq (zs @ [a ! i]) (take (Suc i) a)"
      by (simp only: ta)
    have "subseq (zs @ [b ! j]) (take j b @ [b ! j])"
      using zs(2) by (simp only: subseq_append)
    then have s2: "subseq (zs @ [a ! i]) (take (Suc j) b)"
      by (simp only: tb True)
    have "length (zs @ [a ! i]) = lcsTable a b (Suc i) (Suc j)"
      unfolding eq using zs(3) by simp
    then show ?thesis using s1 s2 by blast
  next
    case False
    have eq: "lcsTable a b (Suc i) (Suc j) =
                max (lcsTable a b i (Suc j)) (lcsTable a b (Suc i) j)"
      using False by simp
    obtain z1 where z1: "subseq z1 (take i a)" "subseq z1 (take (Suc j) b)"
      "length z1 = lcsTable a b i (Suc j)"
      using "3.IH"(2) [OF False le(1) "3.prems"(2)] by blast
    obtain z2 where z2: "subseq z2 (take (Suc i) a)" "subseq z2 (take j b)"
      "length z2 = lcsTable a b (Suc i) j"
      using "3.IH"(3) [OF False "3.prems"(1) le(2)] by blast
    have s1: "subseq z1 (take (Suc i) a)"
      unfolding ta using z1(1) by (rule subseq_rev_drop_many)
    have s2: "subseq z2 (take (Suc j) b)"
      unfolding tb using z2(2) by (rule subseq_rev_drop_many)
    show ?thesis
    proof (cases "lcsTable a b i (Suc j) \<le> lcsTable a b (Suc i) j")
      case True
      then have "length z2 = lcsTable a b (Suc i) (Suc j)"
        unfolding eq using z2(3) by simp
      then show ?thesis using z2(1) s2 by blast
    next
      case nle: False
      then have "length z1 = lcsTable a b (Suc i) (Suc j)"
        unfolding eq using z1(3) by simp
      then show ?thesis using s1 z1(2) by blast
    qed
  qed
qed

lemma subseq_concat_filter:
  assumes "\<And>s. P s \<Longrightarrow> Q s"
  shows "subseq (concat (map f (filter P xs))) (concat (map f (filter Q xs)))"
proof (induction xs)
  case Nil
  show ?case by simp
next
  case (Cons x xs)
  show ?case
  proof (cases "P x")
    case True
    then have "Q x" by (rule assms)
    then show ?thesis using True Cons.IH by (simp add: subseq_append')
  next
    case False
    show ?thesis
    proof (cases "Q x")
      case True
      then show ?thesis using False Cons.IH by (simp add: subseq_drop_many)
    next
      case nq: False
      then show ?thesis using False Cons.IH by simp
    qed
  qed
qed

lemma text_lengths:
  "length (userText segs) + length (correctText segs) =
     editCount segs + 2 * length (concat (map textOf (filter (\<lambda>s. type s = Equal) segs)))"
proof (induction segs)
  case Nil
  show ?case by (simp add: userText_def correctText_def editCount_def)
next
  case (Cons s segs)
  then show ?case
    by (cases "type s") (simp_all add: userText_def correctText_def editCount_def)
qed

lemma editCount_lower_bound:
  assumes "correctText segs = c" "userText segs = u"
  shows "length u + length c \<le> editCount segs + 2 * lcsTable u c (length u) (length c)"
proof -
  define e where "e = concat (map textOf (filter (\<lambda>s. type s = Equal) segs))"
  have "subseq e (userText segs)" "subseq e (correctText segs)"
    unfolding e_def userText_def correctText_def
    by (rule subseq_concat_filter, simp)+
  then have "subseq e (take (length u) u)" "subseq e (take (length c) c)"
    using assms by simp_all
  then have "length e \<le> lcsTable u c (length u) (length c)"
    by (intro lcsTable_upper) simp_all
  moreover have "length u + length c = editCount segs + 2 * length e"
    using text_lengths [of segs] assms by (simp add: e_def)
  ultimately show ?thesis by simp
qed

section \<open>Claims about the alignment\<close>

lemma computeLCS_kitten_sitting:
  "computeLCS ''kitten'' ''sitting'' =
     [[0, 0, 0, 0, 0, 0, 0, 0], [0, 0, 0, 0, 0, 0, 0, 0], [0, 0, 1, 1, 1, 1, 1, 1],
      [0, 0, 1, 2, 2, 2, 2, 2], [0, 0, 1, 2, 3, 3, 3, 3], [0, 0, 1, 2, 3, 3, 3, 3],
      [0, 0, 1, 2, 3, 3, 4, 4]]"
  by code_simp

lemma lcsTable_kitten_sitting: "lcsTable ''kitten'' ''sitting'' 6 7 = 4"
proof -
  have "lcsTable ''kitten'' ''sitting'' 6 7 = computeLCS ''kitten'' ''sitting'' ! 6 ! 7"
    by (rule computeLCS_entry [symmetric]) simp_all
  then show ?thesis by (simp add: computeLCS_kitten_sitting)
qed

lemma computeDiff_kitten_sitting:
  "computeDiff asciiLower ''kitten'' ''sitting'' False =
     Inr [\<lparr>type = Delete, textOf = ''k''\<rparr>, \<lparr>type = Insert, textOf = ''s''\<rparr>,
          \<lparr>type = Equal, textOf = ''itt''\<rparr>, \<lparr>type = Delete, textOf = ''e''\<rparr>,
          \<lparr>type = Insert, textOf = ''i''\<rparr>, \<lparr>type = Equal, textOf = ''n''\<rparr>,
          \<lparr>type = Insert, textOf = ''g''\<rparr>]"
  by (simp add: computeDiff_def asciiLower_def lowerChar_def computeLCS_kitten_sitting
      backtrack.simps leftNotSmaller_def charAt_def mergeStep_def)

text \<open>
  C2, as the claim states it, fails: the Insert and Delete segments of
  \<open>computeDiff("kitten", "sitting", false)\<close> hold 5 characters, not 3.
\<close>

theorem kitten_sitting_edit_count_counterexample:
  "computeDiff asciiLower ''kitten'' ''sitting'' False =
     Inr [\<lparr>type = Delete, textOf = ''k''\<rparr>, \<lparr>type = Insert, textOf = ''s''\<rparr>,
          \<lparr>type = Equal, textOf = ''itt''\<rparr>, \<lparr>type = Delete, textOf = ''e''\<rparr>,
          \<lparr>type = Insert, textOf = ''i''\<rparr>, \<lparr>type = Equal, textOf = ''n''\<rparr>,
          \<lparr>type = Insert, textOf = ''g''\<rparr>]
   \<and> editCount [\<lparr>type = Delete, textOf = ''k''\<rparr>, \<lparr>type = Insert, textOf = ''s''\<rparr>,
          \<lparr>type = Equal, textOf = ''itt''\<rparr>, \<lparr>type = Delete, textOf = ''e''\<rparr>,
          \<lparr>type = Insert, textOf = ''i''\<rparr>, \<lparr>type = Equal, textOf = ''n''\<rparr>,
          \<lparr>type = Insert, textOf = ''g''\<rparr>] \<noteq> 3"
  using computeDiff_kitten_sitting by (simp add: editCount_def)

text \<open>
  C2, amended: \<open>computeDiff("kitten", "sitting", false)\<close> deletes \<open>k\<close> and \<open>e\<close> and
  inserts \<open>s\<close>, \<open>i\<close> and \<open>g\<close>, 5 characters in all (an alignment by insertions and
  deletions has no substitution, so the count is not the edit distance 3), and the
  alignment is minimal: every segment list whose text without \<open>Delete\<close> is \<open>sitting\<close> and
  whose text without \<open>Insert\<close> is \<open>kitten\<close> holds at least 5 such characters.
\<close>

theorem kitten_sitting_minimal_alignment:
  "computeDiff asciiLower ''kitten'' ''sitting'' False =
     Inr [\<lparr>type = Delete, textOf = ''k''\<rparr>, \<lparr>type = Insert, textOf = ''s''\<rparr>,
          \<lparr>type = Equal, textOf = ''itt''\<rparr>, \<lparr>type = Delete, textOf = ''e''\<rparr>,
          \<lparr>type = Insert, textOf = ''i''\<rparr>, \<lparr>type = Equal, textOf = ''n''\<rparr>,
          \<lparr>type = Insert, textOf = ''g''\<rparr>]
   \<and> editCount [\<lparr>type = Delete, textOf = ''k''\<rparr>, \<lparr>type = Insert, textOf = ''s''\<rparr>,
          \<lparr>type = Equal, textOf = ''itt''\<rparr>, \<lparr>type = Delete, textOf = ''e''\<rparr>,
          \<lparr>type = Insert, textOf = ''i''\<rparr>, \<lparr>type = Equal, textOf = ''n''\<rparr>,
          \<lparr>type = Insert, textOf = ''g''\<rparr>] = 5
   \<and> (\<forall>segs. correctText segs = ''sitting'' \<and> userText segs = ''kitten'' \<longrightarrow>
          5 \<le> editCount segs)"
proof -
  have "5 \<le> editCount segs"
    if "correctText segs = ''sitting'' \<and> userText segs = ''kitten''" for segs :: "char DiffSegment list"
  proof -
    have "length ''kitten'' + length ''sitting'' \<le>
            editCount segs + 2 * lcsTable ''kitten'' ''sitting'' (length ''kitten'') (length ''sitting'')"
      using that by (intro editCount_lower_bound) simp_all
    then show ?thesis by (simp add: lcsTable_kitten_sitting)
  qed
  then show ?thesis
    using computeDiff_kitten_sitting by (simp add: editCount_def)
qed

theorem kitten_sitting_minimal_alignment_witness:
  "correctText [\<lparr>type = Delete, textOf = ''kitten''\<rparr>, \<lparr>type = Insert, textOf = ''sitting''\<rparr>]
     = ''sitting''
   \<and> userText [\<lparr>type = Delete, textOf = ''kitten''\<rparr>, \<lparr>type = Insert, textOf = ''sitting''\<rparr>]
     = ''kitten''
   \<and> 5 \<le> editCount [\<lparr>type = Delete, textOf = ''kitten''\<rparr>, \<lparr>type = Insert, textOf = ''sitting''\<rparr>]"
proof -
  have c: "correctText [\<lparr>type = Delete, textOf = ''kitten''\<rparr>,
             \<lparr>type = Insert, textOf = ''sitting''\<rparr>] = ''sitting''"
    by (simp add: correctText_def)
  have u: "userText [\<lparr>type = Delete, textOf = ''kitten''\<rparr>,
             \<lparr>type = Insert, textOf = ''sitting''\<rparr>] = ''kitten''"
    by (simp add: userText_def)
  have "5 \<le> editCount [\<lparr>type = Delete, textOf = ''kitten''\<rparr>,
             \<lparr>type = Insert, textOf = ''sitting''\<rparr>]"
    using kitten_sitting_minimal_alignment c u by blast
  then show ?thesis using c u by blast
qed


lemma backtrack_tie_table:
  assumes "0 < i" "i \<le> length cu" "0 < j" "j \<le> length cc"
    "charAt cu (i - 1) \<noteq> charAt cc (j - 1)"
  shows "backtrack u c cu cc (computeLCS cu cc) i j acc =
           (if lcsTable cu cc (i - 1) j \<le> lcsTable cu cc i (j - 1)
            then backtrack u c cu cc (computeLCS cu cc) i (j - 1) (acc @ [(Insert, c ! (j - 1))])
            else backtrack u c cu cc (computeLCS cu cc) (i - 1) j (acc @ [(Delete, u ! (i - 1))]))"
proof -
  obtain i' j' where ij: "i = Suc i'" "j = Suc j'"
    using assms(1,3) by (metis Suc_pred)
  have lt: "i' < length cu" "j' < length cc"
    using assms(2,4) ij by simp_all
  show ?thesis
    using assms(5) unfolding ij
    by (simp add: backtrack_tie leftNotSmaller_table [OF lt])
qed

lemma computeDiff_referenceDiff:
  assumes "caseSensitive \<or>
           (length userAnswer \<le> length (lower userAnswer) \<and>
            length correctAnswer \<le> length (lower correctAnswer))"
  shows "computeDiff lower userAnswer correctAnswer caseSensitive =
           Inr (referenceDiff lower userAnswer correctAnswer caseSensitive)"
proof -
  define cu where "cu = (if caseSensitive then userAnswer else lower userAnswer)"
  define cc where "cc = (if caseSensitive then correctAnswer else lower correctAnswer)"
  have len: "length userAnswer \<le> length cu" "length correctAnswer \<le> length cc"
    using assms by (auto simp: cu_def cc_def)
  have bt: "backtrack userAnswer correctAnswer cu cc (computeLCS cu cc)
              (length userAnswer) (length correctAnswer) [] =
            Inr ([] @ rev (referenceAlignment userAnswer correctAnswer cu cc
                   (length userAnswer) (length correctAnswer)))"
    by (rule backtrack_reference [OF len]) simp_all
  show ?thesis
    unfolding computeDiff_def referenceDiff_def Let_def cu_def [symmetric] cc_def [symmetric]
    by (simp add: bt fold_mergeStep_mergeRuns)
qed

text \<open>
  C4: \<open>computeDiff\<close> is the reference backtracking with the prefer-Insert-on-ties policy.
  The table that \<open>computeLCS\<close> builds holds the lengths of the longest common subsequences
  of the prefixes of the comparison strings. At a step with characters left on both sides
  that do not match under the fold, the loop emits an \<open>Insert\<close> exactly when the table
  value to the left is not smaller than the value above, and a \<open>Delete\<close> otherwise.
  The whole result is that of \<^const>\<open>referenceDiff\<close>, for every lower-casing that does not
  shorten the two answers (the built-in never does).
\<close>

theorem computeDiff_is_reference_backtracking:
  assumes "caseSensitive \<or>
           (length userAnswer \<le> length (lower userAnswer) \<and>
            length correctAnswer \<le> length (lower correctAnswer))"
  shows "computeDiff lower userAnswer correctAnswer caseSensitive =
           Inr (referenceDiff lower userAnswer correctAnswer caseSensitive)
         \<and> (\<forall>i j. i \<le> length cu \<and> j \<le> length cc \<longrightarrow>
               computeLCS cu cc ! i ! j = lcsTable cu cc i j \<and>
               (\<exists>zs. subseq zs (take i cu) \<and> subseq zs (take j cc) \<and>
                     length zs = lcsTable cu cc i j) \<and>
               (\<forall>zs. subseq zs (take i cu) \<and> subseq zs (take j cc) \<longrightarrow>
                     length zs \<le> lcsTable cu cc i j))
         \<and> (\<forall>i j acc. 0 < i \<and> i \<le> length cu \<and> 0 < j \<and> j \<le> length cc \<and>
               charAt cu (i - 1) \<noteq> charAt cc (j - 1) \<longrightarrow>
               backtrack u c cu cc (computeLCS cu cc) i j acc =
                 (if lcsTable cu cc (i - 1) j \<le> lcsTable cu cc i (j - 1)
                  then backtrack u c cu cc (computeLCS cu cc) i (j - 1)
                         (acc @ [(Insert, c ! (j - 1))])
                  else backtrack u c cu cc (computeLCS cu cc) (i - 1) j
                         (acc @ [(Delete, u ! (i - 1))])))"
proof (intro conjI allI impI)
  show "computeDiff lower userAnswer correctAnswer caseSensitive =
          Inr (referenceDiff lower userAnswer correctAnswer caseSensitive)"
    using assms by (rule computeDiff_referenceDiff)
next
  fix i j assume "i \<le> length cu \<and> j \<le> length cc"
  then show "computeLCS cu cc ! i ! j = lcsTable cu cc i j"
    by (simp add: computeLCS_entry)
next
  fix i j assume "i \<le> length cu \<and> j \<le> length cc"
  then show "\<exists>zs. subseq zs (take i cu) \<and> subseq zs (take j cc) \<and>
                  length zs = lcsTable cu cc i j"
    by (simp add: lcsTable_attained)
next
  fix i j zs
  assume "i \<le> length cu \<and> j \<le> length cc"
    and "subseq zs (take i cu) \<and> subseq zs (take j cc)"
  then show "length zs \<le> lcsTable cu cc i j"
    by (intro lcsTable_upper) simp_all
next
  fix i j acc
  assume "0 < i \<and> i \<le> length cu \<and> 0 < j \<and> j \<le> length cc \<and>
          charAt cu (i - 1) \<noteq> charAt cc (j - 1)"
  then show "backtrack u c cu cc (computeLCS cu cc) i j acc =
               (if lcsTable cu cc (i - 1) j \<le> lcsTable cu cc i (j - 1)
                then backtrack u c cu cc (computeLCS cu cc) i (j - 1)
                       (acc @ [(Insert, c ! (j - 1))])
                else backtrack u c cu cc (computeLCS cu cc) (i - 1) j
                       (acc @ [(Delete, u ! (i - 1))]))"
    by (intro backtrack_tie_table) simp_all
qed

theorem computeDiff_is_reference_backtracking_witness:
  "computeDiff asciiLower ''cAt'' ''Cut'' False = Inr (referenceDiff asciiLower ''cAt'' ''Cut'' False)
   \<and> referenceDiff asciiLower ''cAt'' ''Cut'' False =
       [\<lparr>type = Equal, textOf = ''C''\<rparr>, \<lparr>type = Delete, textOf = ''A''\<rparr>,
        \<lparr>type = Insert, textOf = ''u''\<rparr>, \<lparr>type = Equal, textOf = ''t''\<rparr>]
   \<and> computeLCS ''cat'' ''cut'' ! 3 ! 3 = lcsTable ''cat'' ''cut'' 3 3"
proof -
  have h: "False \<or> (length ''cAt'' \<le> length (asciiLower ''cAt'') \<and>
                      length ''Cut'' \<le> length (asciiLower ''Cut''))"
    by (simp add: asciiLower_def)
  have all: "computeDiff asciiLower ''cAt'' ''Cut'' False =
               Inr (referenceDiff asciiLower ''cAt'' ''Cut'' False)
             \<and> (\<forall>i j. i \<le> length ''cat'' \<and> j \<le> length ''cut'' \<longrightarrow>
                   computeLCS ''cat'' ''cut'' ! i ! j = lcsTable ''cat'' ''cut'' i j \<and>
                   (\<exists>zs. subseq zs (take i ''cat'') \<and> subseq zs (take j ''cut'') \<and>
                         length zs = lcsTable ''cat'' ''cut'' i j) \<and>
                   (\<forall>zs. subseq zs (take i ''cat'') \<and> subseq zs (take j ''cut'') \<longrightarrow>
                         length zs \<le> lcsTable ''cat'' ''cut'' i j))"
    using computeDiff_is_reference_backtracking [where lower = asciiLower
        and userAnswer = "''cAt''" and correctAnswer = "''Cut''" and caseSensitive = False
        and cu = "''cat''" and cc = "''cut''", OF h]
    by blast
  then have eq: "computeDiff asciiLower ''cAt'' ''Cut'' False =
               Inr (referenceDiff asciiLower ''cAt'' ''Cut'' False)"
    by blast
  then have ref: "referenceDiff asciiLower ''cAt'' ''Cut'' False =
       [\<lparr>type = Equal, textOf = ''C''\<rparr>, \<lparr>type = Delete, textOf = ''A''\<rparr>,
        \<lparr>type = Insert, textOf = ''u''\<rparr>, \<lparr>type = Equal, textOf = ''t''\<rparr>]"
    by (simp add: computeDiff_cAt_Cut)
  have "3 \<le> length ''cat'' \<and> 3 \<le> length ''cut''"
    by simp
  then have "computeLCS ''cat'' ''cut'' ! 3 ! 3 = lcsTable ''cat'' ''cut'' 3 3"
    using all by blast
  then show ?thesis using eq ref by blast
qed

section \<open>Properties of the card view controller\<close>

subsection \<open>What the helpers leave alone\<close>

lemma ui_drawContent_keeps:
  "lastPressed (stateOf (ui_drawContent sq s)) = lastPressed s"
  "sequencerCalls (stateOf (ui_drawContent sq s)) = sequencerCalls s"
  "reviewSequencer (stateOf (ui_drawContent sq s)) = reviewSequencer s"
  "reviewButtonDelay (stateOf (ui_drawContent sq s)) = reviewButtonDelay s"
  "backToDeckCalls (stateOf (ui_drawContent sq s)) = backToDeckCalls s"
  by (simp_all add: ui_drawContent_def ui_resetResponseButtons_def Let_def
      split: option.splits)

lemma ui_showNextCard_keeps:
  "lastPressed (stateOf (ui_showNextCard sq s)) = lastPressed s"
  "sequencerCalls (stateOf (ui_showNextCard sq s)) = sequencerCalls s"
  "reviewSequencer (stateOf (ui_showNextCard sq s)) = reviewSequencer s"
  "reviewButtonDelay (stateOf (ui_showNextCard sq s)) = reviewButtonDelay s"
  by (simp_all add: ui_showNextCard_def ui_drawContent_keeps)

lemma showResponseButtons_keeps:
  "lastPressed (showResponseButtons s) = lastPressed s"
  "mode (showResponseButtons s) = mode s"
  "resetButtonDisabled (showResponseButtons s) = resetButtonDisabled s"
  "userTypedAnswer (showResponseButtons s) = userTypedAnswer s"
  "reviewButtonDelay (showResponseButtons s) = reviewButtonDelay s"
  "typeInResult (showResponseButtons s) = typeInResult s"
  "sequencerCalls (showResponseButtons s) = sequencerCalls s"
  "reviewSequencer (showResponseButtons s) = reviewSequencer s"
  by (simp_all add: showResponseButtons_def Let_def)

lemma showResponseButtons_buttons:
  "\<not> hardButtonHidden (showResponseButtons s)"
  "\<not> easyButtonHidden (showResponseButtons s)"
  "reviewMode s \<noteq> Cram \<Longrightarrow> \<not> goodButtonHidden (showResponseButtons s)"
  "reviewMode s = Cram \<Longrightarrow> goodButtonHidden (showResponseButtons s) = goodButtonHidden s"
  "reviewMode s = Cram \<Longrightarrow> responseIsCram (showResponseButtons s)"
  by (simp_all add: showResponseButtons_def Let_def)

lemma perform_rejected:
  assumes "pressedTooSoon (lastPressed s) timeNow (reviewButtonDelay s)"
  shows "perform lower ws sq timeNow action s = Returned s"
  using assms
  by (cases action)
     (simp_all add: perform_def ui_showAnswer_def ui_checkTypeInAnswer_def ui_processReview_def)

lemma ui_showAnswer_applied:
  assumes "\<not> pressedTooSoon (lastPressed s) timeNow (reviewButtonDelay s)"
  shows "applied sq timeNow RevealAnswer s (stateOf (ui_showAnswer sq timeNow s))"
    and "reviewButtonDelay (stateOf (ui_showAnswer sq timeNow s)) = reviewButtonDelay s"
  using assms
  by (simp_all add: applied_def ui_showAnswer_def Let_def showResponseButtons_keeps
      split: option.splits)

lemma ui_checkTypeInAnswer_applied:
  assumes "\<not> pressedTooSoon (lastPressed s) timeNow (reviewButtonDelay s)"
  shows "applied sq timeNow CheckTypedAnswer s (stateOf (ui_checkTypeInAnswer lower ws sq timeNow s))"
    and "reviewButtonDelay (stateOf (ui_checkTypeInAnswer lower ws sq timeNow s)) =
           reviewButtonDelay s"
  using assms
  by (simp_all add: applied_def ui_checkTypeInAnswer_def Let_def showResponseButtons_keeps
      split: option.splits sum.splits)

lemma ui_processReview_applied:
  assumes "\<not> pressedTooSoon (lastPressed s) timeNow (reviewButtonDelay s)"
  shows "applied sq timeNow (GradedResponse response) s
           (stateOf (ui_processReview sq timeNow response s))"
    and "reviewButtonDelay (stateOf (ui_processReview sq timeNow response s)) =
           reviewButtonDelay s"
  using assms
  by (simp_all add: applied_def ui_processReview_def Let_def ui_showNextCard_keeps)

lemma perform_applied:
  assumes "\<not> pressedTooSoon (lastPressed s) timeNow (reviewButtonDelay s)"
  shows "applied sq timeNow action s (stateOf (perform lower ws sq timeNow action s))"
    and "reviewButtonDelay (stateOf (perform lower ws sq timeNow action s)) = reviewButtonDelay s"
  using assms
  by (cases action;
      simp add: perform_def ui_showAnswer_applied ui_checkTypeInAnswer_applied
        ui_processReview_applied)+

subsection \<open>The debounce\<close>

text \<open>
  C6: a reveal, a check of the typed answer or a graded response that comes less than
  \<open>reviewButtonDelay\<close> after the time stamp of the previous accepted action changes nothing,
  the time stamp included; one that comes more than \<open>reviewButtonDelay\<close> after it is applied
  and sets the time stamp to its own time; and of two such actions more than the delay
  apart, the first accepted, both are applied. A time stamp is a clock reading in
  milliseconds since the epoch, which is not \<open>0\<close>.
\<close>

theorem debounce_rejects_and_accepts:
  "(lastPressed s = Some t \<and> t \<noteq> 0 \<and> timeNow - t < reviewButtonDelay s \<longrightarrow>
      perform lower ws sq timeNow action s = Returned s)
   \<and> (lastPressed s = Some t \<and> reviewButtonDelay s < timeNow - t \<longrightarrow>
      applied sq timeNow action s (stateOf (perform lower ws sq timeNow action s)))
   \<and> (\<not> pressedTooSoon (lastPressed s) t1 (reviewButtonDelay s) \<and>
      reviewButtonDelay s < t2 - t1 \<longrightarrow>
      applied sq t1 action1 s (stateOf (perform lower ws sq t1 action1 s)) \<and>
      applied sq t2 action2 (stateOf (perform lower ws sq t1 action1 s))
        (stateOf (perform lower ws sq t2 action2 (stateOf (perform lower ws sq t1 action1 s)))))"
proof (intro conjI impI)
  assume "lastPressed s = Some t \<and> t \<noteq> 0 \<and> timeNow - t < reviewButtonDelay s"
  then have "pressedTooSoon (lastPressed s) timeNow (reviewButtonDelay s)"
    by (simp add: pressedTooSoon_def)
  then show "perform lower ws sq timeNow action s = Returned s"
    by (rule perform_rejected)
next
  assume "lastPressed s = Some t \<and> reviewButtonDelay s < timeNow - t"
  then have "\<not> pressedTooSoon (lastPressed s) timeNow (reviewButtonDelay s)"
    by (simp add: pressedTooSoon_def)
  then show "applied sq timeNow action s (stateOf (perform lower ws sq timeNow action s))"
    by (rule perform_applied)
next
  assume h: "\<not> pressedTooSoon (lastPressed s) t1 (reviewButtonDelay s) \<and>
             reviewButtonDelay s < t2 - t1"
  then show "applied sq t1 action1 s (stateOf (perform lower ws sq t1 action1 s))"
    by (simp add: perform_applied)
next
  assume h: "\<not> pressedTooSoon (lastPressed s) t1 (reviewButtonDelay s) \<and>
             reviewButtonDelay s < t2 - t1"
  define s1 where "s1 = stateOf (perform lower ws sq t1 action1 s)"
  have "applied sq t1 action1 s s1" and d: "reviewButtonDelay s1 = reviewButtonDelay s"
    using h by (simp_all add: perform_applied s1_def)
  then have "lastPressed s1 = Some t1"
    by (simp add: applied_def)
  then have "\<not> pressedTooSoon (lastPressed s1) t2 (reviewButtonDelay s1)"
    using h d by (simp add: pressedTooSoon_def)
  then have "applied sq t2 action2 s1 (stateOf (perform lower ws sq t2 action2 s1))"
    by (rule perform_applied)
  then show "applied sq t2 action2 (stateOf (perform lower ws sq t1 action1 s))
        (stateOf (perform lower ws sq t2 action2 (stateOf (perform lower ws sq t1 action1 s))))"
    by (simp add: s1_def)
qed

lemma check_frontView:
  "ui_checkTypeInAnswer asciiLower isWhiteSpace queueSequencer 1000 frontView = Returned backView"
  by (simp add: ui_checkTypeInAnswer_def frontView_def backView_def queueSequencer_def
      exampleQueue_def pressedTooSoon_def Let_def trim_def isWhiteSpace_def
      computeDiff_def asciiLower_def lowerChar_def isAnswerCorrect_def showResponseButtons_def)

theorem debounce_rejects_and_accepts_witness:
  "perform asciiLower isWhiteSpace queueSequencer 1050 (GradedResponse Good) backView
     = Returned backView
   \<and> applied queueSequencer 1200 (GradedResponse Good) backView
       (stateOf (perform asciiLower isWhiteSpace queueSequencer 1200 (GradedResponse Good)
          backView))
   \<and> applied queueSequencer 1000 CheckTypedAnswer frontView backView
   \<and> applied queueSequencer 1200 (GradedResponse Good) backView
       (stateOf (perform asciiLower isWhiteSpace queueSequencer 1200 (GradedResponse Good)
          backView))"
proof -
  have p: "perform asciiLower isWhiteSpace queueSequencer 1000 CheckTypedAnswer frontView =
             Returned backView"
    by (simp add: perform_def check_frontView)
  have h1: "lastPressed backView = Some 1000 \<and> (1000::int) \<noteq> 0 \<and>
            1050 - 1000 < reviewButtonDelay backView"
    by (simp add: backView_def frontView_def)
  have h2: "lastPressed backView = Some 1000 \<and> reviewButtonDelay backView < 1200 - 1000"
    by (simp add: backView_def frontView_def)
  have h3: "\<not> pressedTooSoon (lastPressed frontView) 1000 (reviewButtonDelay frontView) \<and>
            reviewButtonDelay frontView < 1200 - 1000"
    by (simp add: frontView_def pressedTooSoon_def)
  have a: "perform asciiLower isWhiteSpace queueSequencer 1050 (GradedResponse Good) backView
             = Returned backView"
    using debounce_rejects_and_accepts [where s = backView and t = 1000 and timeNow = 1050
        and lower = asciiLower and ws = isWhiteSpace and sq = queueSequencer
        and action = "GradedResponse Good"] h1
    by blast
  have b: "applied queueSequencer 1200 (GradedResponse Good) backView
       (stateOf (perform asciiLower isWhiteSpace queueSequencer 1200 (GradedResponse Good)
          backView))"
    using debounce_rejects_and_accepts [where s = backView and t = 1000 and timeNow = 1200
        and lower = asciiLower and ws = isWhiteSpace and sq = queueSequencer
        and action = "GradedResponse Good"] h2
    by blast
  have c: "applied queueSequencer 1000 CheckTypedAnswer frontView
             (stateOf (perform asciiLower isWhiteSpace queueSequencer 1000 CheckTypedAnswer
                frontView))
           \<and> applied queueSequencer 1200 (GradedResponse Good)
               (stateOf (perform asciiLower isWhiteSpace queueSequencer 1000 CheckTypedAnswer
                  frontView))
               (stateOf (perform asciiLower isWhiteSpace queueSequencer 1200
                  (GradedResponse Good)
                  (stateOf (perform asciiLower isWhiteSpace queueSequencer 1000
                     CheckTypedAnswer frontView))))"
    using debounce_rejects_and_accepts [where s = frontView and ?t1.0 = 1000 and ?t2.0 = 1200
        and lower = asciiLower and ws = isWhiteSpace and sq = queueSequencer
        and ?action1.0 = CheckTypedAnswer and ?action2.0 = "GradedResponse Good"] h3
    by blast
  show ?thesis
    using a b c by (simp add: p)
qed

subsection \<open>Skipping\<close>

lemma ui_skipCurrentCard_effects:
  "sequencerCalls (stateOf (ui_skipCurrentCard sq s)) = sequencerCalls s @ [SkipCurrentCard]"
  "reviewSequencer (stateOf (ui_skipCurrentCard sq s)) = skipCurrentCard sq (reviewSequencer s)"
  "lastPressed (stateOf (ui_skipCurrentCard sq s)) = lastPressed s"
  by (simp_all add: ui_skipCurrentCard_def ui_showNextCard_keeps)

lemma ui_drawContent_front:
  assumes "currentCard sq (reviewSequencer s) \<noteq> None"
    "currentQuestion sq (reviewSequencer s) \<noteq> None"
  shows "\<exists>s'. ui_drawContent sq s = Returned s' \<and> mode s' = Front \<and> resetButtonDisabled s'"
  using assms
  by (auto simp: ui_drawContent_def ui_resetResponseButtons_def Let_def)

lemma ui_skipCurrentCard_next:
  assumes "currentCard sq (skipCurrentCard sq (reviewSequencer s)) \<noteq> None"
    "currentQuestion sq (skipCurrentCard sq (reviewSequencer s)) \<noteq> None"
  shows "\<exists>s'. ui_skipCurrentCard sq s = Returned s' \<and> mode s' = Front"
proof -
  define s1 where "s1 = s\<lparr>reviewSequencer := skipCurrentCard sq (reviewSequencer s),
                           sequencerCalls := sequencerCalls s @ [SkipCurrentCard]\<rparr>"
  have "currentCard sq (reviewSequencer s1) \<noteq> None"
    "currentQuestion sq (reviewSequencer s1) \<noteq> None"
    using assms by (simp_all add: s1_def)
  then obtain s' where "ui_drawContent sq s1 = Returned s'" "mode s' = Front"
    using ui_drawContent_front by blast
  moreover have "ui_skipCurrentCard sq s = ui_drawContent sq s1"
    using assms(1) by (simp add: ui_skipCurrentCard_def ui_showNextCard_def s1_def)
  ultimately show ?thesis by simp
qed

lemma ui_skipCurrentCard_last:
  assumes "currentCard sq (skipCurrentCard sq (reviewSequencer s)) = None"
  shows "ui_skipCurrentCard sq s =
           Returned (s\<lparr>reviewSequencer := skipCurrentCard sq (reviewSequencer s),
                       sequencerCalls := sequencerCalls s @ [SkipCurrentCard],
                       backToDeckCalls := backToDeckCalls s + 1\<rparr>)"
  using assms by (simp add: ui_skipCurrentCard_def ui_showNextCard_def)

lemma keydown_KeyS:
  assumes "mode s \<noteq> Closed" "srInFocus" "activeElement = OtherElement"
  shows "ui_keydownHandler sq timeNow activeElement srInFocus ''KeyS'' s = ui_skipCurrentCard sq s"
  using assms by (simp add: ui_keydownHandler_def)

lemma keydown_KeyS_dropped:
  assumes "mode s = Closed \<or> \<not> srInFocus \<or> activeElement \<noteq> OtherElement"
  shows "ui_keydownHandler sq timeNow activeElement srInFocus ''KeyS'' s = Returned s"
  using assms by (cases activeElement) (auto simp: ui_keydownHandler_def)

text \<open>
  C7, as the claim states it, fails: in \<open>Back\<close> mode the skip key is not dropped. On the
  example view in \<open>Back\<close> mode the key calls \<open>skipCurrentCard\<close> and the next card is drawn in
  \<open>Front\<close> mode.
\<close>

theorem skip_in_back_mode_counterexample:
  "mode backView = Back
   \<and> sequencerCalls backView = []
   \<and> sequencerCalls
       (stateOf (ui_keydownHandler queueSequencer 5000 OtherElement True ''KeyS'' backView))
     = [SkipCurrentCard]
   \<and> mode (stateOf (ui_keydownHandler queueSequencer 5000 OtherElement True ''KeyS'' backView))
     = Front"
  by (simp add: ui_keydownHandler_def ui_skipCurrentCard_def ui_showNextCard_def
      ui_drawContent_def ui_resetResponseButtons_def ui_isTypeInCard_def Let_def
      backView_def frontView_def queueSequencer_def exampleQueue_def)

text \<open>
  C7, amended: a skip is accepted in \<open>Front\<close> and in \<open>Back\<close> mode alike. The skip key is
  dropped only when the mode is \<open>Closed\<close>, the view is out of focus or the focus is in a text
  area or in the type-in input; the skip button always acts. A skip is not debounced and
  leaves the time stamp alone. It calls \<open>skipCurrentCard\<close>, and then draws the next card in
  \<open>Front\<close> mode or, when no card is left, calls \<open>backToDeck\<close>.
\<close>

theorem skip_accepted_in_front_and_back:
  "(mode s \<noteq> Closed \<and> srInFocus \<and> activeElement = OtherElement \<longrightarrow>
      ui_keydownHandler sq timeNow activeElement srInFocus ''KeyS'' s = ui_skipCurrentCard sq s)
   \<and> (mode s = Closed \<or> \<not> srInFocus \<or> activeElement \<noteq> OtherElement \<longrightarrow>
      ui_keydownHandler sq timeNow activeElement srInFocus ''KeyS'' s = Returned s)
   \<and> ui_click lower ws sq timeNow SkipButton s = ui_skipCurrentCard sq s
   \<and> sequencerCalls (stateOf (ui_skipCurrentCard sq s)) = sequencerCalls s @ [SkipCurrentCard]
   \<and> reviewSequencer (stateOf (ui_skipCurrentCard sq s)) = skipCurrentCard sq (reviewSequencer s)
   \<and> lastPressed (stateOf (ui_skipCurrentCard sq s)) = lastPressed s
   \<and> (currentCard sq (skipCurrentCard sq (reviewSequencer s)) \<noteq> None \<and>
      currentQuestion sq (skipCurrentCard sq (reviewSequencer s)) \<noteq> None \<longrightarrow>
      (\<exists>s'. ui_skipCurrentCard sq s = Returned s' \<and> mode s' = Front))
   \<and> (currentCard sq (skipCurrentCard sq (reviewSequencer s)) = None \<longrightarrow>
      ui_skipCurrentCard sq s =
        Returned (s\<lparr>reviewSequencer := skipCurrentCard sq (reviewSequencer s),
                    sequencerCalls := sequencerCalls s @ [SkipCurrentCard],
                    backToDeckCalls := backToDeckCalls s + 1\<rparr>))"
proof -
  have a: "mode s \<noteq> Closed \<and> srInFocus \<and> activeElement = OtherElement \<longrightarrow>
      ui_keydownHandler sq timeNow activeElement srInFocus ''KeyS'' s = ui_skipCurrentCard sq s"
    by (simp add: keydown_KeyS)
  have b: "mode s = Closed \<or> \<not> srInFocus \<or> activeElement \<noteq> OtherElement \<longrightarrow>
      ui_keydownHandler sq timeNow activeElement srInFocus ''KeyS'' s = Returned s"
    using keydown_KeyS_dropped by blast
  have c: "ui_click lower ws sq timeNow SkipButton s = ui_skipCurrentCard sq s"
    by (simp add: ui_click_def)
  have d: "currentCard sq (skipCurrentCard sq (reviewSequencer s)) \<noteq> None \<and>
      currentQuestion sq (skipCurrentCard sq (reviewSequencer s)) \<noteq> None \<longrightarrow>
      (\<exists>s'. ui_skipCurrentCard sq s = Returned s' \<and> mode s' = Front)"
    using ui_skipCurrentCard_next by blast
  have e: "currentCard sq (skipCurrentCard sq (reviewSequencer s)) = None \<longrightarrow>
      ui_skipCurrentCard sq s =
        Returned (s\<lparr>reviewSequencer := skipCurrentCard sq (reviewSequencer s),
                    sequencerCalls := sequencerCalls s @ [SkipCurrentCard],
                    backToDeckCalls := backToDeckCalls s + 1\<rparr>)"
    using ui_skipCurrentCard_last by blast
  show ?thesis
    using a b c d e ui_skipCurrentCard_effects [of sq s] by blast
qed

theorem skip_accepted_in_front_and_back_witness:
  "ui_keydownHandler queueSequencer 5000 OtherElement True ''KeyS'' backView
     = ui_skipCurrentCard queueSequencer backView
   \<and> ui_keydownHandler queueSequencer 5000 OtherElement True ''KeyS'' frontView
     = ui_skipCurrentCard queueSequencer frontView
   \<and> ui_keydownHandler queueSequencer 5000 TypeInInput True ''KeyS'' frontView
     = Returned frontView
   \<and> (\<exists>s'. ui_skipCurrentCard queueSequencer backView = Returned s' \<and> mode s' = Front)"
proof -
  have h1: "mode backView \<noteq> Closed \<and> True \<and> OtherElement = OtherElement"
    by (simp add: backView_def frontView_def)
  have h2: "mode frontView \<noteq> Closed \<and> True \<and> OtherElement = OtherElement"
    by (simp add: frontView_def)
  have h3: "mode frontView = Closed \<or> \<not> True \<or> TypeInInput \<noteq> OtherElement"
    by simp
  have h4: "currentCard queueSequencer (skipCurrentCard queueSequencer (reviewSequencer backView))
              \<noteq> None \<and>
            currentQuestion queueSequencer
              (skipCurrentCard queueSequencer (reviewSequencer backView)) \<noteq> None"
    by (simp add: backView_def frontView_def queueSequencer_def exampleQueue_def)
  show ?thesis
    using skip_accepted_in_front_and_back [where s = backView and srInFocus = True
        and activeElement = OtherElement and sq = queueSequencer and timeNow = 5000] h1 h4
      skip_accepted_in_front_and_back [where s = frontView and srInFocus = True
        and activeElement = OtherElement and sq = queueSequencer and timeNow = 5000] h2
      skip_accepted_in_front_and_back [where s = frontView and srInFocus = True
        and activeElement = TypeInInput and sq = queueSequencer and timeNow = 5000] h3
    by blast
qed

subsection \<open>Reset and the check of a typed answer\<close>

lemma keydown_reset_not_back:
  assumes "mode s \<noteq> Back"
  shows "ui_keydownHandler sq timeNow activeElement srInFocus ''Digit0'' s = Returned s"
    and "ui_keydownHandler sq timeNow activeElement srInFocus ''Numpad0'' s = Returned s"
  using assms by (simp_all add: ui_keydownHandler_def)

lemma keydown_reset_back:
  assumes "mode s = Back" "srInFocus" "activeElement \<noteq> TextArea"
  shows "ui_keydownHandler sq timeNow activeElement srInFocus ''Digit0'' s =
           ui_processReview sq timeNow Reset s"
    and "ui_keydownHandler sq timeNow activeElement srInFocus ''Numpad0'' s =
           ui_processReview sq timeNow Reset s"
  using assms by (simp_all add: ui_keydownHandler_def)

lemma ui_drawContent_disables_reset:
  "resetButtonDisabled (stateOf (ui_drawContent sq s))"
  by (simp add: ui_drawContent_def ui_resetResponseButtons_def Let_def split: option.splits)

text \<open>
  C8, as the claim states it, fails: in \<open>Front\<close> mode the reset key is ignored. On the
  example view in \<open>Front\<close> mode the key changes nothing and the sequencer is not called; the
  reset button is disabled there and its click does nothing either.
\<close>

theorem reset_in_front_mode_counterexample:
  "mode frontView = Front
   \<and> ui_keydownHandler queueSequencer 5000 OtherElement True ''Digit0'' frontView
     = Returned frontView
   \<and> ui_keydownHandler queueSequencer 5000 OtherElement True ''Numpad0'' frontView
     = Returned frontView
   \<and> resetButtonDisabled frontView
   \<and> ui_click asciiLower isWhiteSpace queueSequencer 5000 ResetButton frontView
     = Returned frontView"
  by (simp add: ui_keydownHandler_def ui_click_def frontView_def)

text \<open>
  C8, amended: the reset key is accepted in \<open>Back\<close> mode only, like the other grading keys.
  In \<open>Back\<close> mode it submits a \<open>Reset\<close> response to the sequencer, subject to the debounce;
  in any other mode it is ignored. The reset button is disabled when a card is drawn, a
  disabled button does nothing, and the button is enabled when the answer is revealed or
  checked.
\<close>

theorem reset_accepted_in_back_only:
  "(mode s \<noteq> Back \<longrightarrow>
      ui_keydownHandler sq timeNow activeElement srInFocus ''Digit0'' s = Returned s \<and>
      ui_keydownHandler sq timeNow activeElement srInFocus ''Numpad0'' s = Returned s)
   \<and> (mode s = Back \<and> srInFocus \<and> activeElement \<noteq> TextArea \<longrightarrow>
      ui_keydownHandler sq timeNow activeElement srInFocus ''Digit0'' s =
        ui_processReview sq timeNow Reset s \<and>
      ui_keydownHandler sq timeNow activeElement srInFocus ''Numpad0'' s =
        ui_processReview sq timeNow Reset s)
   \<and> (\<not> pressedTooSoon (lastPressed s) timeNow (reviewButtonDelay s) \<longrightarrow>
      sequencerCalls (stateOf (ui_processReview sq timeNow Reset s)) =
        sequencerCalls s @ [ProcessReview Reset] \<and>
      reviewSequencer (stateOf (ui_processReview sq timeNow Reset s)) =
        processReview sq Reset (reviewSequencer s))
   \<and> resetButtonDisabled (stateOf (ui_drawContent sq s))
   \<and> (resetButtonDisabled s \<longrightarrow>
      ui_click lower ws sq timeNow ResetButton s = Returned s)
   \<and> (\<not> pressedTooSoon (lastPressed s) timeNow (reviewButtonDelay s) \<longrightarrow>
      \<not> resetButtonDisabled (stateOf (ui_showAnswer sq timeNow s)))
   \<and> (\<not> pressedTooSoon (lastPressed s) timeNow (reviewButtonDelay s) \<longrightarrow>
      (\<forall>s'. ui_checkTypeInAnswer lower ws sq timeNow s = Returned s' \<longrightarrow>
         \<not> resetButtonDisabled s'))"
proof -
  have a: "mode s \<noteq> Back \<longrightarrow>
      ui_keydownHandler sq timeNow activeElement srInFocus ''Digit0'' s = Returned s \<and>
      ui_keydownHandler sq timeNow activeElement srInFocus ''Numpad0'' s = Returned s"
    using keydown_reset_not_back by blast
  have b: "mode s = Back \<and> srInFocus \<and> activeElement \<noteq> TextArea \<longrightarrow>
      ui_keydownHandler sq timeNow activeElement srInFocus ''Digit0'' s =
        ui_processReview sq timeNow Reset s \<and>
      ui_keydownHandler sq timeNow activeElement srInFocus ''Numpad0'' s =
        ui_processReview sq timeNow Reset s"
    using keydown_reset_back by blast
  have c: "\<not> pressedTooSoon (lastPressed s) timeNow (reviewButtonDelay s) \<longrightarrow>
      sequencerCalls (stateOf (ui_processReview sq timeNow Reset s)) =
        sequencerCalls s @ [ProcessReview Reset] \<and>
      reviewSequencer (stateOf (ui_processReview sq timeNow Reset s)) =
        processReview sq Reset (reviewSequencer s)"
    by (simp add: ui_processReview_def Let_def ui_showNextCard_keeps)
  have d: "resetButtonDisabled (stateOf (ui_drawContent sq s))"
    by (rule ui_drawContent_disables_reset)
  have e: "resetButtonDisabled s \<longrightarrow> ui_click lower ws sq timeNow ResetButton s = Returned s"
    by (simp add: ui_click_def)
  have f: "\<not> pressedTooSoon (lastPressed s) timeNow (reviewButtonDelay s) \<longrightarrow>
      \<not> resetButtonDisabled (stateOf (ui_showAnswer sq timeNow s))"
    by (simp add: ui_showAnswer_def Let_def showResponseButtons_keeps split: option.splits)
  have g: "\<not> pressedTooSoon (lastPressed s) timeNow (reviewButtonDelay s) \<longrightarrow>
      (\<forall>s'. ui_checkTypeInAnswer lower ws sq timeNow s = Returned s' \<longrightarrow>
         \<not> resetButtonDisabled s')"
    by (auto simp: ui_checkTypeInAnswer_def Let_def showResponseButtons_keeps
        split: option.splits sum.splits)
  show ?thesis
    using a b c d e f g by blast
qed

theorem reset_accepted_in_back_only_witness:
  "ui_keydownHandler queueSequencer 5000 OtherElement True ''Digit0'' frontView
     = Returned frontView
   \<and> ui_keydownHandler queueSequencer 5000 OtherElement True ''Digit0'' backView
     = ui_processReview queueSequencer 5000 Reset backView
   \<and> sequencerCalls (stateOf (ui_processReview queueSequencer 5000 Reset backView))
     = sequencerCalls backView @ [ProcessReview Reset]
   \<and> ui_click asciiLower isWhiteSpace queueSequencer 5000 ResetButton frontView
     = Returned frontView"
proof -
  have h1: "mode frontView \<noteq> Back"
    by (simp add: frontView_def)
  have h2: "mode backView = Back \<and> True \<and> OtherElement \<noteq> TextArea"
    by (simp add: backView_def frontView_def)
  have h3: "\<not> pressedTooSoon (lastPressed backView) 5000 (reviewButtonDelay backView)"
    by (simp add: backView_def frontView_def pressedTooSoon_def)
  have h4: "resetButtonDisabled frontView"
    by (simp add: frontView_def)
  show ?thesis
    using reset_accepted_in_back_only [where s = frontView and sq = queueSequencer
        and timeNow = 5000 and activeElement = OtherElement and srInFocus = True
        and lower = asciiLower and ws = isWhiteSpace] h1 h4
      reset_accepted_in_back_only [where s = backView and sq = queueSequencer
        and timeNow = 5000 and activeElement = OtherElement and srInFocus = True
        and lower = asciiLower and ws = isWhiteSpace] h2 h3
    by blast
qed

text \<open>
  C9: an accepted check of the typed answer returns with the mode \<open>Back\<close>, the reset button
  enabled, the input frozen and the grading buttons shown (\<open>Hard\<close> and \<open>Easy\<close>, and \<open>Good\<close>
  unless the review mode is \<open>Cram\<close>), whatever \<open>isAnswerCorrect\<close> returned; its result is
  shown by the indicator and changes nothing else. The sequencer is not called.
\<close>

theorem check_typed_answer_goes_to_back:
  assumes "\<not> pressedTooSoon (lastPressed s) timeNow (reviewButtonDelay s)"
    and "currentCard sq (reviewSequencer s) = Some cur"
    and "typeInCaseSensitive s \<or>
         length (typeInInputValue s) \<le> length (lower (typeInInputValue s))"
  shows "\<exists>s' diff.
           ui_checkTypeInAnswer lower ws sq timeNow s = Returned s' \<and>
           computeDiff lower (typeInInputValue s) (trim ws (backOf cur))
             (typeInCaseSensitive s) = Inr diff \<and>
           s' = showResponseButtons
                  (s\<lparr>lastPressed := Some timeNow,
                     userTypedAnswer := typeInInputValue s,
                     typeInResultHidden := False,
                     typeInResult :=
                       (Some \<lparr>shownUserAnswer =
                                (if length (typeInInputValue s) = 0 then None else Some diff),
                              shownCorrectAnswer = trim ws (backOf cur),
                              indicatorCorrect =
                                isAnswerCorrect lower ws (typeInInputValue s)
                                  (trim ws (backOf cur)) (typeInCaseSensitive s)\<rparr>),
                     typeInInputDisabled := True,
                     checkAnswerButtonHidden := True,
                     mode := Back,
                     resetButtonDisabled := False\<rparr>) \<and>
           mode s' = Back \<and>
           \<not> resetButtonDisabled s' \<and>
           \<not> hardButtonHidden s' \<and>
           \<not> easyButtonHidden s' \<and>
           (reviewMode s = Cram \<or> \<not> goodButtonHidden s') \<and>
           typeInInputDisabled s' \<and>
           sequencerCalls s' = sequencerCalls s \<and>
           reviewSequencer s' = reviewSequencer s"
proof -
  obtain diff where diff:
    "computeDiff lower (typeInInputValue s) (trim ws (backOf cur)) (typeInCaseSensitive s) =
       Inr diff"
    using computeDiff_returns [where lower = lower and u = "typeInInputValue s"
        and cs = "typeInCaseSensitive s", OF assms(3)]
    by blast
  define s3 where "s3 =
    s\<lparr>lastPressed := Some timeNow,
      userTypedAnswer := typeInInputValue s,
      typeInResultHidden := False,
      typeInResult :=
        (Some \<lparr>shownUserAnswer =
                 (if length (typeInInputValue s) = 0 then None else Some diff),
               shownCorrectAnswer = trim ws (backOf cur),
               indicatorCorrect =
                 isAnswerCorrect lower ws (typeInInputValue s)
                   (trim ws (backOf cur)) (typeInCaseSensitive s)\<rparr>),
      typeInInputDisabled := True,
      checkAnswerButtonHidden := True,
      mode := Back,
      resetButtonDisabled := False\<rparr>"
  have ret: "ui_checkTypeInAnswer lower ws sq timeNow s = Returned (showResponseButtons s3)"
    using assms(1,2) diff by (simp add: ui_checkTypeInAnswer_def Let_def s3_def)
  have props: "mode (showResponseButtons s3) = Back"
    "\<not> resetButtonDisabled (showResponseButtons s3)"
    "\<not> hardButtonHidden (showResponseButtons s3)"
    "\<not> easyButtonHidden (showResponseButtons s3)"
    "reviewMode s = Cram \<or> \<not> goodButtonHidden (showResponseButtons s3)"
    "typeInInputDisabled (showResponseButtons s3)"
    "sequencerCalls (showResponseButtons s3) = sequencerCalls s"
    "reviewSequencer (showResponseButtons s3) = reviewSequencer s"
    by (simp_all add: showResponseButtons_def Let_def s3_def)
  show ?thesis
    using ret diff props unfolding s3_def by blast
qed

theorem check_typed_answer_goes_to_back_witness:
  "isAnswerCorrect asciiLower isWhiteSpace ''Cat'' (trim isWhiteSpace '' cat '') False
   \<and> \<not> isAnswerCorrect asciiLower isWhiteSpace ''Dog'' (trim isWhiteSpace '' cat '') False
   \<and> (\<exists>s'. ui_checkTypeInAnswer asciiLower isWhiteSpace queueSequencer 1000 frontView
              = Returned s' \<and>
            mode s' = Back \<and> \<not> hardButtonHidden s' \<and> \<not> goodButtonHidden s' \<and>
            \<not> easyButtonHidden s' \<and> \<not> resetButtonDisabled s')
   \<and> (\<exists>s'. ui_checkTypeInAnswer asciiLower isWhiteSpace queueSequencer 1000
              (frontView\<lparr>typeInInputValue := ''Dog''\<rparr>) = Returned s' \<and>
            mode s' = Back \<and> \<not> hardButtonHidden s' \<and> \<not> goodButtonHidden s' \<and>
            \<not> easyButtonHidden s' \<and> \<not> resetButtonDisabled s')"
proof -
  have c1: "isAnswerCorrect asciiLower isWhiteSpace ''Cat'' (trim isWhiteSpace '' cat '') False"
    by (simp add: isAnswerCorrect_def trim_def isWhiteSpace_def asciiLower_def lowerChar_def)
  have c2: "\<not> isAnswerCorrect asciiLower isWhiteSpace ''Dog'' (trim isWhiteSpace '' cat '') False"
    by (simp add: isAnswerCorrect_def trim_def isWhiteSpace_def asciiLower_def lowerChar_def)
  have a1: "\<not> pressedTooSoon (lastPressed frontView) 1000 (reviewButtonDelay frontView)"
    by (simp add: frontView_def pressedTooSoon_def)
  have a2: "currentCard queueSequencer (reviewSequencer frontView) =
              Some \<lparr>front = ''animal'', backOf = '' cat ''\<rparr>"
    by (simp add: frontView_def queueSequencer_def exampleQueue_def)
  have a3: "typeInCaseSensitive frontView \<or>
            length (typeInInputValue frontView) \<le> length (asciiLower (typeInInputValue frontView))"
    by (simp add: asciiLower_def)
  have b1: "\<not> pressedTooSoon (lastPressed (frontView\<lparr>typeInInputValue := ''Dog''\<rparr>)) 1000
              (reviewButtonDelay (frontView\<lparr>typeInInputValue := ''Dog''\<rparr>))"
    by (simp add: frontView_def pressedTooSoon_def)
  have b2: "currentCard queueSequencer (reviewSequencer (frontView\<lparr>typeInInputValue := ''Dog''\<rparr>)) =
              Some \<lparr>front = ''animal'', backOf = '' cat ''\<rparr>"
    by (simp add: frontView_def queueSequencer_def exampleQueue_def)
  have b3: "typeInCaseSensitive (frontView\<lparr>typeInInputValue := ''Dog''\<rparr>) \<or>
            length (typeInInputValue (frontView\<lparr>typeInInputValue := ''Dog''\<rparr>)) \<le>
              length (asciiLower (typeInInputValue (frontView\<lparr>typeInInputValue := ''Dog''\<rparr>)))"
    by (simp add: asciiLower_def)
  have m: "reviewMode frontView \<noteq> Cram"
    "reviewMode (frontView\<lparr>typeInInputValue := ''Dog''\<rparr>) \<noteq> Cram"
    by (simp_all add: frontView_def)
  have w1: "\<exists>s'. ui_checkTypeInAnswer asciiLower isWhiteSpace queueSequencer 1000 frontView
              = Returned s' \<and>
            mode s' = Back \<and> \<not> hardButtonHidden s' \<and> \<not> goodButtonHidden s' \<and>
            \<not> easyButtonHidden s' \<and> \<not> resetButtonDisabled s'"
    using check_typed_answer_goes_to_back [where lower = asciiLower and ws = isWhiteSpace
        and sq = queueSequencer and timeNow = 1000 and s = frontView, OF a1 a2 a3] m(1)
    by blast
  have w2: "\<exists>s'. ui_checkTypeInAnswer asciiLower isWhiteSpace queueSequencer 1000
              (frontView\<lparr>typeInInputValue := ''Dog''\<rparr>) = Returned s' \<and>
            mode s' = Back \<and> \<not> hardButtonHidden s' \<and> \<not> goodButtonHidden s' \<and>
            \<not> easyButtonHidden s' \<and> \<not> resetButtonDisabled s'"
    using check_typed_answer_goes_to_back [where lower = asciiLower and ws = isWhiteSpace
        and sq = queueSequencer and timeNow = 1000
        and s = "frontView\<lparr>typeInInputValue := ''Dog''\<rparr>", OF b1 b2 b3] m(2)
    by blast
  show ?thesis
    using c1 c2 w1 w2 by blast
qed

end
